theory Spec2Isabelle
  imports Main "HOL-Library.Word"
begin

unbundle bit_operations_syntax

section \<open>Machine types\<close>

text \<open>
  The header uses the integer types of the instrumentation kit it is compiled against:
  \<open>UINT32\<close> and \<open>INT32\<close> are 32-bit values (an \<open>INT32\<close> is read in two's
  complement with \<open>sint\<close>), \<open>UINT64\<close> is a 64-bit value and \<open>ADDRINT\<close> is an
  unsigned integer as wide as an address, taken here as 64 bits. Unsigned arithmetic
  wraps around. The \<open>int\<close> recency counter of a tag is kept as a 32-bit word whose
  increment wraps as the machine instruction does.
\<close>

type_synonym UINT32 = "32 word"
type_synonym INT32 = "32 word"
type_synonym UINT64 = "64 word"
type_synonym ADDRINT = "64 word"
type_synonym CACHE_STATS = UINT64

text \<open>How a call can fail: \<open>ASSERTX\<close> aborts, an integer division by zero traps, and an
  array index beyond the bound of the array leaves the object.\<close>

datatype error = AssertionFailed | DivisionByZero | OutOfBounds

section \<open>Bit utilities\<close>

definition IsPower2 :: "UINT32 \<Rightarrow> bool" where
  "IsPower2 n = (n AND (n - 1) = 0)"

definition FloorLog2 :: "UINT32 \<Rightarrow> INT32" where
  "FloorLog2 n =
     (if n = 0 then - 1
      else
        let (p, n) = (if n AND 0xffff0000 \<noteq> 0 then (16, drop_bit 16 n) else (0, n));
            (p, n) = (if n AND 0x0000ff00 \<noteq> 0 then (p + 8, drop_bit 8 n) else (p, n));
            (p, n) = (if n AND 0x000000f0 \<noteq> 0 then (p + 4, drop_bit 4 n) else (p, n));
            (p, n) = (if n AND 0x0000000c \<noteq> 0 then (p + 2, drop_bit 2 n) else (p, n));
            p = (if n AND 0x00000002 \<noteq> 0 then p + 1 else p)
        in p)"

definition CeilLog2 :: "UINT32 \<Rightarrow> INT32" where
  "CeilLog2 n = FloorLog2 (n - 1) + 1"

section \<open>Cache tag\<close>

text \<open>The private member \<open>_tag\<close> is the field \<open>tag_val\<close>; \<open>CACHE_TAG_ctor\<close> is the
  constructor, \<open>tag_eq\<close> is \<open>operator==\<close>, which compares \<open>_tag\<close> only.\<close>

record CACHE_TAG =
  tag_val :: ADDRINT
  dirty :: bool
  LRU :: INT32

definition CACHE_TAG_ctor :: "ADDRINT \<Rightarrow> CACHE_TAG" where
  "CACHE_TAG_ctor t = \<lparr>tag_val = t, dirty = False, LRU = 0\<rparr>"

definition tag_eq :: "CACHE_TAG \<Rightarrow> CACHE_TAG \<Rightarrow> bool" where
  "tag_eq l r = (tag_val l = tag_val r)"

section \<open>Cache sets\<close>

text \<open>
  The two classes of namespace \<open>CACHE_SET\<close>. A direct-mapped set holds one tag; an
  \<open>LRU\<close> set holds the array \<open>_tags\<close>, whose length is the template parameter
  \<open>MAX_ASSOCIATIVITY\<close>, and \<open>_tagsLastIndex\<close>.
\<close>

datatype SET =
  CACHE_SET_DIRECT_MAPPED CACHE_TAG
  | CACHE_SET_LRU "CACHE_TAG list" UINT32

text \<open>The class a cache is instantiated with: \<open>DIRECT_MAPPED\<close>, or
  \<open>LRU<MAX_ASSOCIATIVITY>\<close>.\<close>

datatype SET_CLASS = DIRECT_MAPPED_CLASS | LRU_CLASS UINT32

subsection \<open>Direct mapped\<close>

definition DIRECT_MAPPED_ctor :: "UINT32 \<Rightarrow> error + SET" where
  "DIRECT_MAPPED_ctor associativity' =
     (if associativity' = 1 then Inr (CACHE_SET_DIRECT_MAPPED (CACHE_TAG_ctor 0))
      else Inl AssertionFailed)"

definition DIRECT_MAPPED_SetAssociativity :: "CACHE_TAG \<Rightarrow> UINT32 \<Rightarrow> error + SET" where
  "DIRECT_MAPPED_SetAssociativity t associativity' =
     (if associativity' = 1 then Inr (CACHE_SET_DIRECT_MAPPED t) else Inl AssertionFailed)"

definition DIRECT_MAPPED_Find :: "CACHE_TAG \<Rightarrow> CACHE_TAG \<Rightarrow> bool" where
  "DIRECT_MAPPED_Find t tag' = tag_eq t tag'"

definition DIRECT_MAPPED_Replace :: "CACHE_TAG \<Rightarrow> CACHE_TAG \<Rightarrow> SET" where
  "DIRECT_MAPPED_Replace t tag' = CACHE_SET_DIRECT_MAPPED tag'"

subsection \<open>LRU\<close>

text \<open>
  Every loop of the class is \<open>for (INT32 index = _tagsLastIndex; index >= 0; index--)\<close>.
  It runs \<open>active li\<close> times, for \<open>index = active li - 1\<close> down to \<open>0\<close>, and not at all
  when \<open>_tagsLastIndex\<close> read as an \<open>INT32\<close> is negative. The loop functions below
  take the number of rounds left: \<open>Suc index\<close> is the round that works on slot \<open>index\<close>.
  The array \<open>_tags\<close> is a list of \<open>MAX_ASSOCIATIVITY\<close> tags, so that \<open>SetAssociativity\<close>
  asserts its argument against the length of the list.
\<close>

definition active :: "UINT32 \<Rightarrow> nat" where
  "active li = nat (sint li + 1)"

fun LRU_ctor_loop :: "nat \<Rightarrow> CACHE_TAG list \<Rightarrow> error + CACHE_TAG list" where
  "LRU_ctor_loop 0 ts = Inr ts"
| "LRU_ctor_loop (Suc index) ts =
     (if length ts \<le> index then Inl OutOfBounds
      else LRU_ctor_loop index (ts[index := CACHE_TAG_ctor 0]))"

definition LRU_ctor :: "UINT32 \<Rightarrow> UINT32 \<Rightarrow> error + SET" where
  "LRU_ctor MAX_ASSOCIATIVITY associativity' =
     (if \<not> associativity' \<le> MAX_ASSOCIATIVITY then Inl AssertionFailed
      else
        case LRU_ctor_loop (active (associativity' - 1))
               (replicate (unat MAX_ASSOCIATIVITY) (CACHE_TAG_ctor 0)) of
          Inl e \<Rightarrow> Inl e
        | Inr ts \<Rightarrow> Inr (CACHE_SET_LRU ts (associativity' - 1)))"

definition LRU_SetAssociativity :: "CACHE_TAG list \<Rightarrow> UINT32 \<Rightarrow> error + SET" where
  "LRU_SetAssociativity ts associativity' =
     (if \<not> unat associativity' \<le> length ts then Inl AssertionFailed
      else Inr (CACHE_SET_LRU ts (associativity' - 1)))"

fun LRU_Find_loop :: "CACHE_TAG \<Rightarrow> nat \<Rightarrow> CACHE_TAG list \<Rightarrow> bool \<Rightarrow> error + (bool \<times> CACHE_TAG list)" where
  "LRU_Find_loop tag' 0 ts result = Inr (result, ts)"
| "LRU_Find_loop tag' (Suc index) ts result =
     (if length ts \<le> index then Inl OutOfBounds
      else if tag_eq (ts ! index) tag'
      then LRU_Find_loop tag' index (ts[index := (ts ! index)\<lparr>LRU := 0\<rparr>]) True
      else LRU_Find_loop tag' index (ts[index := (ts ! index)\<lparr>LRU := LRU (ts ! index) + 1\<rparr>]) result)"

definition LRU_Find :: "CACHE_TAG list \<Rightarrow> UINT32 \<Rightarrow> CACHE_TAG \<Rightarrow> error + (bool \<times> SET)" where
  "LRU_Find ts li tag' =
     (case LRU_Find_loop tag' (active li) ts False of
        Inl e \<Rightarrow> Inl e
      | Inr (result, ts') \<Rightarrow> Inr (result, CACHE_SET_LRU ts' li))"

text \<open>The scan of \<open>Replace\<close> carries \<open>lru_index\<close> and \<open>lru_val\<close>; the comparison
  \<open>_tags[index].LRU > lru_val\<close> is one of signed integers.\<close>

fun LRU_Replace_loop :: "nat \<Rightarrow> CACHE_TAG list \<Rightarrow> UINT32 \<times> INT32 \<Rightarrow> error + (UINT32 \<times> INT32)" where
  "LRU_Replace_loop 0 ts st = Inr st"
| "LRU_Replace_loop (Suc index) ts (lru_index, lru_val) =
     (if length ts \<le> index then Inl OutOfBounds
      else if lru_val <s LRU (ts ! index)
      then LRU_Replace_loop index ts (word_of_nat index, LRU (ts ! index))
      else LRU_Replace_loop index ts (lru_index, lru_val))"

definition LRU_Replace :: "CACHE_TAG list \<Rightarrow> UINT32 \<Rightarrow> CACHE_TAG \<Rightarrow> error + SET" where
  "LRU_Replace ts li tag' =
     (case LRU_Replace_loop (active li) ts (li, 0) of
        Inl e \<Rightarrow> Inl e
      | Inr (lru_index, lru_val) \<Rightarrow>
          if length ts \<le> unat lru_index then Inl OutOfBounds
          else Inr (CACHE_SET_LRU (ts[unat lru_index := tag'\<lparr>LRU := 0\<rparr>]) li))"

subsection \<open>The operations a cache calls on its sets\<close>

definition SET_ctor :: "SET_CLASS \<Rightarrow> error + SET" where
  "SET_ctor cls =
     (case cls of
        DIRECT_MAPPED_CLASS \<Rightarrow> DIRECT_MAPPED_ctor 1
      | LRU_CLASS MAX_ASSOCIATIVITY \<Rightarrow> LRU_ctor MAX_ASSOCIATIVITY MAX_ASSOCIATIVITY)"

definition SetAssociativity :: "SET \<Rightarrow> UINT32 \<Rightarrow> error + SET" where
  "SetAssociativity s associativity' =
     (case s of
        CACHE_SET_DIRECT_MAPPED t \<Rightarrow> DIRECT_MAPPED_SetAssociativity t associativity'
      | CACHE_SET_LRU ts li \<Rightarrow> LRU_SetAssociativity ts associativity')"

definition Find :: "SET \<Rightarrow> CACHE_TAG \<Rightarrow> error + (bool \<times> SET)" where
  "Find s tag' =
     (case s of
        CACHE_SET_DIRECT_MAPPED t \<Rightarrow> Inr (DIRECT_MAPPED_Find t tag', CACHE_SET_DIRECT_MAPPED t)
      | CACHE_SET_LRU ts li \<Rightarrow> LRU_Find ts li tag')"

definition Replace :: "SET \<Rightarrow> CACHE_TAG \<Rightarrow> error + SET" where
  "Replace s tag' =
     (case s of
        CACHE_SET_DIRECT_MAPPED t \<Rightarrow> Inr (DIRECT_MAPPED_Replace t tag')
      | CACHE_SET_LRU ts li \<Rightarrow> LRU_Replace ts li tag')"

section \<open>Cache base class\<close>

datatype STORE_ALLOCATION = STORE_ALLOCATE | STORE_NO_ALLOCATE

text \<open>The enumerator \<open>ACCESS_TYPE_NUM\<close> is the number of access types, the bound of the
  counter arrays, and not an access type.\<close>

datatype ACCESS_TYPE = ACCESS_TYPE_LOAD | ACCESS_TYPE_STORE

text \<open>
  The members of \<open>CACHE_BASE\<close>, without their leading underscore. The counter array
  \<open>_access[ACCESS_TYPE_NUM][HIT_MISS_NUM]\<close> is a function of the access type and
  of the outcome (\<open>True\<close> is a hit). Class \<open>CACHE\<close> derives from \<open>CACHE_BASE\<close> and
  adds the two arrays of sets, each of \<open>MAX_SETS\<close> elements.
\<close>

record CACHE_BASE =
  access :: "ACCESS_TYPE \<Rightarrow> bool \<Rightarrow> CACHE_STATS"
  l2_access :: "ACCESS_TYPE \<Rightarrow> bool \<Rightarrow> CACHE_STATS"
  name :: string
  cacheSize :: UINT32
  lineSize :: UINT32
  associativity :: UINT32
  l2_cacheSize :: UINT32
  l2_lineSize :: UINT32
  l2_associativity :: UINT32
  lineShift :: UINT32
  setIndexMask :: UINT32
  l2_lineShift :: UINT32
  l2_setIndexMask :: UINT32

record CACHE = CACHE_BASE +
  sets :: "SET list"
  l2_sets :: "SET list"

definition SumAccess :: "'a CACHE_BASE_scheme \<Rightarrow> bool \<Rightarrow> int \<Rightarrow> CACHE_STATS" where
  "SumAccess c hit cache_level = (let sum = 0 in sum)"

definition NumSets :: "'a CACHE_BASE_scheme \<Rightarrow> UINT32" where
  "NumSets c = setIndexMask c + 1"

definition l2_NumSets :: "'a CACHE_BASE_scheme \<Rightarrow> UINT32" where
  "l2_NumSets c = l2_setIndexMask c + 1"

definition CacheSize :: "'a CACHE_BASE_scheme \<Rightarrow> UINT32" where
  "CacheSize c = cacheSize c"

definition LineSize :: "'a CACHE_BASE_scheme \<Rightarrow> UINT32" where
  "LineSize c = lineSize c"

definition Associativity :: "'a CACHE_BASE_scheme \<Rightarrow> UINT32" where
  "Associativity c = associativity c"

text \<open>The accessors taking an access type.\<close>

definition Hits :: "'a CACHE_BASE_scheme \<Rightarrow> ACCESS_TYPE \<Rightarrow> CACHE_STATS" where
  "Hits c accessType = access c accessType True"

definition Misses :: "'a CACHE_BASE_scheme \<Rightarrow> ACCESS_TYPE \<Rightarrow> CACHE_STATS" where
  "Misses c accessType = access c accessType False"

definition Accesses :: "'a CACHE_BASE_scheme \<Rightarrow> ACCESS_TYPE \<Rightarrow> CACHE_STATS" where
  "Accesses c accessType = Hits c accessType + Misses c accessType"

text \<open>The overloads without argument, the aggregates over the access types.\<close>

definition Hits_all :: "'a CACHE_BASE_scheme \<Rightarrow> CACHE_STATS" where
  "Hits_all c = SumAccess c True 1"

definition Misses_all :: "'a CACHE_BASE_scheme \<Rightarrow> CACHE_STATS" where
  "Misses_all c = SumAccess c False 1"

definition Accesses_all :: "'a CACHE_BASE_scheme \<Rightarrow> CACHE_STATS" where
  "Accesses_all c = Hits_all c + Misses_all c"

text \<open>
  \<open>SplitAddress\<close> with four parameters. The shifted address is converted to a
  \<open>CACHE_TAG\<close>; for the mask the tag is converted back to an \<open>ADDRINT\<close>, the mask is
  widened to it, and the result is narrowed to the \<open>UINT32\<close> set index.
\<close>

definition SplitAddress :: "'a CACHE_BASE_scheme \<Rightarrow> ADDRINT \<Rightarrow> UINT32 \<Rightarrow> CACHE_TAG \<times> UINT32" where
  "SplitAddress c addr level =
     (let tag' = CACHE_TAG_ctor (drop_bit (unat (if level = 1 then lineShift c else l2_lineShift c)) addr);
          setIndex = ucast (tag_val tag' AND ucast (if level = 1 then setIndexMask c else l2_setIndexMask c))
      in (tag', setIndex))"

text \<open>
  The constructor of \<open>CACHE_BASE\<close>. The member initialisers divide by
  \<open>associativity * lineSize\<close>, a 32-bit product, before the body asserts the powers
  of two.
\<close>

definition CACHE_BASE_ctor ::
  "string \<Rightarrow> UINT32 \<Rightarrow> UINT32 \<Rightarrow> UINT32 \<Rightarrow> UINT32 \<Rightarrow> UINT32 \<Rightarrow> UINT32 \<Rightarrow> error + CACHE_BASE" where
  "CACHE_BASE_ctor name' cacheSize' lineSize' associativity' l2_cacheSize' l2_lineSize' l2_associativity' =
     (if associativity' * lineSize' = 0 then Inl DivisionByZero
      else if l2_associativity' * l2_lineSize' = 0 then Inl DivisionByZero
      else
        let c = \<lparr>access = (\<lambda>accessType hit. 0),
                 l2_access = (\<lambda>accessType hit. 0),
                 name = name',
                 cacheSize = cacheSize',
                 lineSize = lineSize',
                 associativity = associativity',
                 l2_cacheSize = l2_cacheSize',
                 l2_lineSize = l2_lineSize',
                 l2_associativity = l2_associativity',
                 lineShift = FloorLog2 lineSize',
                 setIndexMask = cacheSize' div (associativity' * lineSize') - 1,
                 l2_lineShift = FloorLog2 l2_lineSize',
                 l2_setIndexMask = l2_cacheSize' div (l2_associativity' * l2_lineSize') - 1\<rparr>
        in if \<not> IsPower2 (lineSize c) then Inl AssertionFailed
           else if \<not> IsPower2 (setIndexMask c + 1) then Inl AssertionFailed
           else Inr c)"

section \<open>Cache\<close>

text \<open>The loops \<open>for (UINT32 i = 0; i < n; i++) sets[i].SetAssociativity(a)\<close> of the
  constructor: \<open>SetAssociativity_loop a i k ss\<close> has \<open>k\<close> rounds left, the next on
  element \<open>i\<close>.\<close>

fun SetAssociativity_loop :: "UINT32 \<Rightarrow> nat \<Rightarrow> nat \<Rightarrow> SET list \<Rightarrow> error + SET list" where
  "SetAssociativity_loop a i 0 ss = Inr ss"
| "SetAssociativity_loop a i (Suc k) ss =
     (if length ss \<le> i then Inl OutOfBounds
      else case SetAssociativity (ss ! i) a of
             Inl e \<Rightarrow> Inl e
           | Inr s \<Rightarrow> SetAssociativity_loop a (Suc i) k (ss[i := s]))"

text \<open>
  The constructor of \<open>CACHE<SET, MAX_SETS, STORE_ALLOCATION>\<close>: the base class, then the
  \<open>MAX_SETS\<close> default-constructed sets of each array, then the body.
\<close>

definition CACHE_ctor ::
  "SET_CLASS \<Rightarrow> UINT32 \<Rightarrow> string \<Rightarrow> UINT32 \<Rightarrow> UINT32 \<Rightarrow> UINT32 \<Rightarrow> UINT32 \<Rightarrow> UINT32 \<Rightarrow> UINT32 \<Rightarrow> error + CACHE" where
  "CACHE_ctor cls MAX_SETS name' cacheSize' lineSize' associativity' l2_cacheSize' l2_lineSize' l2_associativity' =
     (case CACHE_BASE_ctor name' cacheSize' lineSize' associativity' l2_cacheSize' l2_lineSize' l2_associativity' of
        Inl e \<Rightarrow> Inl e
      | Inr b \<Rightarrow>
          case SET_ctor cls of
            Inl e \<Rightarrow> Inl e
          | Inr s \<Rightarrow>
              if \<not> NumSets b \<le> MAX_SETS then Inl AssertionFailed
              else
                case SetAssociativity_loop associativity' 0 (unat (NumSets b)) (replicate (unat MAX_SETS) s) of
                  Inl e \<Rightarrow> Inl e
                | Inr ss \<Rightarrow>
                    case SetAssociativity_loop l2_associativity' 0 (unat (l2_NumSets b)) (replicate (unat MAX_SETS) s) of
                      Inl e \<Rightarrow> Inl e
                    | Inr l2_ss \<Rightarrow> Inr (CACHE_BASE.extend b \<lparr>sets = ss, l2_sets = l2_ss\<rparr>))"

text \<open>
  \<open>Access\<close>: the \<open>do ... while (addr < highAddr)\<close> loop. The call of \<open>AccessSingleLine\<close>
  in its body is commented out in the source and \<open>localHit\<close> is the constant \<open>true\<close>;
  no member of the cache is written. A loop that does not end is the value \<open>None\<close>.
\<close>

partial_function (option) Access_loop :: "ADDRINT \<Rightarrow> ADDRINT \<Rightarrow> ADDRINT \<Rightarrow> bool \<Rightarrow> ADDRINT \<Rightarrow> bool option" where
  "Access_loop lineSize' notLineMask highAddr allHit addr =
     (if (addr AND notLineMask) + lineSize' < highAddr
      then Access_loop lineSize' notLineMask highAddr (allHit \<and> True) ((addr AND notLineMask) + lineSize')
      else Some (allHit \<and> True))"

definition Access :: "CACHE \<Rightarrow> ADDRINT \<Rightarrow> UINT32 \<Rightarrow> ACCESS_TYPE \<Rightarrow> (bool \<times> CACHE) option" where
  "Access c addr size' accessType =
     (let highAddr = addr + ucast size';
          lineSize' = ucast (LineSize c);
          notLineMask = NOT (lineSize' - 1)
      in case Access_loop lineSize' notLineMask highAddr True addr of
           None \<Rightarrow> None
         | Some allHit \<Rightarrow> Some (allHit, c))"

text \<open>\<open>AccessSingleLine\<close>, with the template parameter \<open>STORE_ALLOCATION\<close> first.\<close>

definition AccessSingleLine :: "STORE_ALLOCATION \<Rightarrow> CACHE \<Rightarrow> ADDRINT \<Rightarrow> ACCESS_TYPE \<Rightarrow> error + (bool \<times> CACHE)" where
  "AccessSingleLine alloc c addr accessType =
     (let (tag', setIndex) = SplitAddress c addr 1
      in if length (sets c) \<le> unat setIndex then Inl OutOfBounds
         else
           case Find (sets c ! unat setIndex) tag' of
             Inl e \<Rightarrow> Inl e
           | Inr (hit, s) \<Rightarrow>
               case (if \<not> hit \<and> (accessType = ACCESS_TYPE_LOAD \<or> alloc = STORE_ALLOCATE)
                     then Replace s tag' else Inr s) of
                 Inl e \<Rightarrow> Inl e
               | Inr s' \<Rightarrow>
                   Inr (hit, c\<lparr>sets := (sets c)[unat setIndex := s'],
                               access := (access c)(accessType := (access c accessType)(hit := access c accessType hit + 1))\<rparr>))"

text \<open>A run of single-line accesses, in order; it stops at the first that fails.\<close>

fun AccessSingleLine_seq :: "STORE_ALLOCATION \<Rightarrow> CACHE \<Rightarrow> (ADDRINT \<times> ACCESS_TYPE) list \<Rightarrow> error + CACHE" where
  "AccessSingleLine_seq alloc c [] = Inr c"
| "AccessSingleLine_seq alloc c ((addr, accessType) # rest) =
     (case AccessSingleLine alloc c addr accessType of
        Inl e \<Rightarrow> Inl e
      | Inr (hit, c') \<Rightarrow> AccessSingleLine_seq alloc c' rest)"

section \<open>Notions used in the statements\<close>

text \<open>What one round of the scan of \<open>Find\<close> does to the slot it looks at.\<close>

definition Find_slot :: "CACHE_TAG \<Rightarrow> CACHE_TAG \<Rightarrow> CACHE_TAG" where
  "Find_slot tag' t = (if tag_eq t tag' then t\<lparr>LRU := 0\<rparr> else t\<lparr>LRU := LRU t + 1\<rparr>)"

text \<open>
  A set object as the constructors and \<open>SetAssociativity\<close> leave it when the
  associativity is not zero: the active slots lie within the array, and so does
  \<open>_tagsLastIndex\<close>.
\<close>

definition valid_SET :: "SET \<Rightarrow> bool" where
  "valid_SET s =
     (case s of
        CACHE_SET_DIRECT_MAPPED t \<Rightarrow> True
      | CACHE_SET_LRU ts li \<Rightarrow> active li \<le> length ts \<and> unat li < length ts)"

text \<open>The number of slots a set scans, the tag values it stores (its occupancy), and
  whether a tag value is stored in a scanned slot.\<close>

definition ways :: "SET \<Rightarrow> nat" where
  "ways s = (case s of CACHE_SET_DIRECT_MAPPED t \<Rightarrow> 1 | CACHE_SET_LRU ts li \<Rightarrow> active li)"

definition occupancy :: "SET \<Rightarrow> ADDRINT list" where
  "occupancy s = (case s of CACHE_SET_DIRECT_MAPPED t \<Rightarrow> [tag_val t] | CACHE_SET_LRU ts li \<Rightarrow> map tag_val ts)"

definition resident :: "SET \<Rightarrow> ADDRINT \<Rightarrow> bool" where
  "resident s v = (v \<in> set (take (ways s) (occupancy s)))"

definition valid_sets :: "CACHE \<Rightarrow> bool" where
  "valid_sets c = list_all valid_SET (sets c)"

text \<open>A cache whose set index always falls on one of its sets.\<close>

definition valid_CACHE :: "CACHE \<Rightarrow> bool" where
  "valid_CACHE c = (unat (setIndexMask c) < length (sets c) \<and> valid_sets c)"

text \<open>The counter array after the cell of an access type and an outcome is incremented.\<close>

definition count_access :: "CACHE \<Rightarrow> ACCESS_TYPE \<Rightarrow> bool \<Rightarrow> ACCESS_TYPE \<Rightarrow> bool \<Rightarrow> CACHE_STATS" where
  "count_access c accessType hit = (access c)(accessType := (access c accessType)(hit := access c accessType hit + 1))"

text \<open>Two caches to run the operations on: a two-way cache of four sets, and a four-way
  cache of one set. Both have lines of 64 bytes.\<close>

definition example_cache :: "error + CACHE" where
  "example_cache = CACHE_ctor (LRU_CLASS 4) 4 ''dl1'' 512 64 2 512 64 2"

definition one_set_cache :: "error + CACHE" where
  "one_set_cache = CACHE_ctor (LRU_CLASS 4) 1 ''dl1'' 256 64 4 256 64 4"

text \<open>The example cache after loads of the lines at 0x100 and 0x180.\<close>
definition warm_cache :: CACHE where
  "warm_cache = projr (AccessSingleLine_seq STORE_ALLOCATE (projr example_cache)
     [(0x100, ACCESS_TYPE_LOAD), (0x180, ACCESS_TYPE_LOAD)])"

text \<open>The template parameters that size the arrays: no array is empty, and an \<open>LRU\<close> set has
  no more slots than an \<open>INT32\<close> index can count.\<close>

definition array_bounds :: "SET_CLASS \<Rightarrow> UINT32 \<Rightarrow> bool" where
  "array_bounds cls MAX_SETS =
     (MAX_SETS \<noteq> 0 \<and>
      (case cls of
         DIRECT_MAPPED_CLASS \<Rightarrow> True
       | LRU_CLASS MAX_ASSOCIATIVITY \<Rightarrow> MAX_ASSOCIATIVITY \<noteq> 0 \<and> MAX_ASSOCIATIVITY \<le> 2147483648))"

text \<open>A set in which tag value 0 is resident.\<close>

definition cold :: "SET \<Rightarrow> bool" where
  "cold s = (valid_SET s \<and> resident s 0)"

text \<open>A cache whose set 0 holds tag value 0.\<close>

definition holds_zero :: "CACHE \<Rightarrow> bool" where
  "holds_zero c = (0 < length (sets c) \<and> valid_sets c \<and> resident (sets c ! 0) 0)"

text \<open>What a run of loads does to the set they all fall on: \<open>Find\<close> and, on a miss,
  \<open>Replace\<close>, as in \<open>AccessSingleLine\<close>.\<close>

fun load_seq :: "SET \<Rightarrow> CACHE_TAG list \<Rightarrow> error + SET" where
  "load_seq s [] = Inr s"
| "load_seq s (t # rest) =
     (case Find s t of
        Inl e \<Rightarrow> Inl e
      | Inr (hit, s1) \<Rightarrow>
          case (if \<not> hit then Replace s1 t else Inr s1) of
            Inl e \<Rightarrow> Inl e
          | Inr s2 \<Rightarrow> load_seq s2 rest)"

text \<open>The tags of a fresh set of \<open>k\<close> active slots out of \<open>n\<close> after the first \<open>m\<close> of the
  tags \<open>tgs\<close> were loaded.\<close>

definition fill_state :: "nat \<Rightarrow> nat \<Rightarrow> CACHE_TAG list \<Rightarrow> nat \<Rightarrow> CACHE_TAG list" where
  "fill_state k n tgs m =
     map (\<lambda>i. if i < k - m then (CACHE_TAG_ctor 0)\<lparr>LRU := word_of_nat m\<rparr>
               else if i < k then (tgs ! (k - 1 - i))\<lparr>LRU := word_of_nat (m - (k - i))\<rparr>
               else CACHE_TAG_ctor 0) [0..<n]"

text \<open>The same tags after \<open>Find\<close> has missed on them once more.\<close>

definition fill_probe :: "nat \<Rightarrow> nat \<Rightarrow> CACHE_TAG list \<Rightarrow> nat \<Rightarrow> CACHE_TAG list" where
  "fill_probe k n tgs m =
     map (\<lambda>i. if i < k - m then (CACHE_TAG_ctor 0)\<lparr>LRU := word_of_nat (Suc m)\<rparr>
               else if i < k then (tgs ! (k - 1 - i))\<lparr>LRU := word_of_nat (Suc (m - (k - i)))\<rparr>
               else CACHE_TAG_ctor 0) [0..<n]"

section \<open>Properties of the sets\<close>

lemma active_minus_one_le: "active (a - 1) \<le> unat a"
proof (cases "a = 0")
  case True
  then show ?thesis by (simp add: active_def)
next
  case False
  have "- 2147483648 \<le> uint (a - 1)"
    using uint_ge_0 [of "a - 1"] by linarith
  then have "sint (a - 1) \<le> uint (a - 1)"
    unfolding sint_uint by (simp add: signed_take_bit_int_less_eq_self_iff)
  also have "\<dots> = int (unat (a - 1))" by simp
  also have "\<dots> = int (unat a) - 1" using False by (simp add: unat_minus_one unat_eq_zero of_nat_diff Suc_leI unat_gt_0)
  finally have "sint (a - 1) + 1 \<le> int (unat a)" by linarith
  then show ?thesis unfolding active_def by linarith
qed

lemma LRU_ctor_loop_replicate:
  "n \<le> m \<Longrightarrow> LRU_ctor_loop n (replicate m (CACHE_TAG_ctor 0)) = Inr (replicate m (CACHE_TAG_ctor 0))"
proof (induction n)
  case 0
  then show ?case by simp
next
  case (Suc n)
  have "(replicate m (CACHE_TAG_ctor 0))[n := CACHE_TAG_ctor 0] = replicate m (CACHE_TAG_ctor 0)"
    by (cases "n < m") (auto intro!: nth_equalityI simp: nth_list_update)
  with Suc show ?case by simp
qed

lemma LRU_ctor_eq:
  "LRU_ctor MAX_ASSOCIATIVITY a =
     (if a \<le> MAX_ASSOCIATIVITY
      then Inr (CACHE_SET_LRU (replicate (unat MAX_ASSOCIATIVITY) (CACHE_TAG_ctor 0)) (a - 1))
      else Inl AssertionFailed)"
proof (cases "a \<le> MAX_ASSOCIATIVITY")
  case True
  then have "active (a - 1) \<le> unat MAX_ASSOCIATIVITY"
    using active_minus_one_le [of a] by (simp add: word_le_nat_alt)
  then show ?thesis using True by (simp add: LRU_ctor_def LRU_ctor_loop_replicate)
next
  case False
  then show ?thesis by (simp add: LRU_ctor_def)
qed

lemma LRU_Find_loop_eq:
  "n \<le> length ts \<Longrightarrow>
   LRU_Find_loop tag' n ts result =
     Inr (result \<or> (\<exists>t \<in> set (take n ts). tag_eq t tag'), map (Find_slot tag') (take n ts) @ drop n ts)"
proof (induction n arbitrary: ts result)
  case 0
  then show ?case by simp
next
  case (Suc n)
  let ?x = "Find_slot tag' (ts ! n)"
  have n: "n < length ts" using Suc.prems by simp
  have tk: "take n (ts[n := ?x]) = take n ts" by simp
  have dr: "drop n (ts[n := ?x]) = ?x # drop (Suc n) ts"
    using n by (simp add: Cons_nth_drop_Suc [symmetric] upd_conv_take_nth_drop)
  have step: "LRU_Find_loop tag' (Suc n) ts result =
      LRU_Find_loop tag' n (ts[n := ?x]) (result \<or> tag_eq (ts ! n) tag')"
    using n by (simp add: Find_slot_def)
  have "LRU_Find_loop tag' n (ts[n := ?x]) (result \<or> tag_eq (ts ! n) tag') =
      Inr ((result \<or> tag_eq (ts ! n) tag') \<or> (\<exists>t \<in> set (take n (ts[n := ?x])). tag_eq t tag'),
           map (Find_slot tag') (take n (ts[n := ?x])) @ drop n (ts[n := ?x]))"
    using n by (intro Suc.IH) simp
  then show ?case
    using n unfolding step tk dr by (auto simp: take_Suc_conv_app_nth)
qed

lemma LRU_Replace_loop_props:
  "n \<le> length ts \<Longrightarrow>
   \<exists>li' lv'. LRU_Replace_loop n ts (li, lv) = Inr (li', lv') \<and>
     sint lv \<le> sint lv' \<and>
     (\<forall>i<n. sint (LRU (ts ! i)) \<le> sint lv') \<and>
     ((li' = li \<and> lv' = lv) \<or>
      (\<exists>j<n. li' = word_of_nat j \<and> lv' = LRU (ts ! j) \<and> sint lv < sint lv' \<and>
         (\<forall>i. j < i \<and> i < n \<longrightarrow> sint (LRU (ts ! i)) < sint lv')))"
proof (induction n arbitrary: li lv)
  case 0
  then show ?case by simp
next
  case (Suc n)
  then have n: "n < length ts" by simp
  show ?case
  proof (cases "lv <s LRU (ts ! n)")
    case True
    from Suc.IH [of "word_of_nat n" "LRU (ts ! n)"] n
    obtain li' lv' where r: "LRU_Replace_loop n ts (word_of_nat n, LRU (ts ! n)) = Inr (li', lv')"
      and le: "sint (LRU (ts ! n)) \<le> sint lv'"
      and all: "\<forall>i<n. sint (LRU (ts ! i)) \<le> sint lv'"
      and d: "(li' = word_of_nat n \<and> lv' = LRU (ts ! n)) \<or>
        (\<exists>j<n. li' = word_of_nat j \<and> lv' = LRU (ts ! j) \<and> sint (LRU (ts ! n)) < sint lv' \<and>
           (\<forall>i. j < i \<and> i < n \<longrightarrow> sint (LRU (ts ! i)) < sint lv'))"
      by auto
    have lt: "sint lv < sint (LRU (ts ! n))" using True by (simp add: word_sless_alt)
    have eq: "LRU_Replace_loop (Suc n) ts (li, lv) = Inr (li', lv')"
      using True n r by simp
    have all': "\<forall>i<Suc n. sint (LRU (ts ! i)) \<le> sint lv'"
      using all le by (auto simp: less_Suc_eq)
    have "\<exists>j<Suc n. li' = word_of_nat j \<and> lv' = LRU (ts ! j) \<and> sint lv < sint lv' \<and>
         (\<forall>i. j < i \<and> i < Suc n \<longrightarrow> sint (LRU (ts ! i)) < sint lv')"
      using d
    proof
      assume "li' = word_of_nat n \<and> lv' = LRU (ts ! n)"
      then show ?thesis using lt by (intro exI [of _ n]) auto
    next
      assume "\<exists>j<n. li' = word_of_nat j \<and> lv' = LRU (ts ! j) \<and> sint (LRU (ts ! n)) < sint lv' \<and>
           (\<forall>i. j < i \<and> i < n \<longrightarrow> sint (LRU (ts ! i)) < sint lv')"
      then obtain j where j: "j < n" "li' = word_of_nat j" "lv' = LRU (ts ! j)"
        "sint (LRU (ts ! n)) < sint lv'" "\<forall>i. j < i \<and> i < n \<longrightarrow> sint (LRU (ts ! i)) < sint lv'"
        by blast
      then show ?thesis using lt by (intro exI [of _ j]) (auto simp: less_Suc_eq)
    qed
    with eq all' le lt show ?thesis by auto
  next
    case False
    from Suc.IH [of li lv] n
    obtain li' lv' where r: "LRU_Replace_loop n ts (li, lv) = Inr (li', lv')"
      and le: "sint lv \<le> sint lv'"
      and all: "\<forall>i<n. sint (LRU (ts ! i)) \<le> sint lv'"
      and d: "(li' = li \<and> lv' = lv) \<or>
        (\<exists>j<n. li' = word_of_nat j \<and> lv' = LRU (ts ! j) \<and> sint lv < sint lv' \<and>
           (\<forall>i. j < i \<and> i < n \<longrightarrow> sint (LRU (ts ! i)) < sint lv'))"
      by auto
    have ge: "sint (LRU (ts ! n)) \<le> sint lv" using False by (simp add: word_sless_alt)
    have eq: "LRU_Replace_loop (Suc n) ts (li, lv) = Inr (li', lv')"
      using False n r by simp
    have all': "\<forall>i<Suc n. sint (LRU (ts ! i)) \<le> sint lv'"
      using all le ge by (auto simp: less_Suc_eq)
    have "(li' = li \<and> lv' = lv) \<or>
        (\<exists>j<Suc n. li' = word_of_nat j \<and> lv' = LRU (ts ! j) \<and> sint lv < sint lv' \<and>
           (\<forall>i. j < i \<and> i < Suc n \<longrightarrow> sint (LRU (ts ! i)) < sint lv'))"
      using d
    proof
      assume "li' = li \<and> lv' = lv"
      then show ?thesis by simp
    next
      assume "\<exists>j<n. li' = word_of_nat j \<and> lv' = LRU (ts ! j) \<and> sint lv < sint lv' \<and>
           (\<forall>i. j < i \<and> i < n \<longrightarrow> sint (LRU (ts ! i)) < sint lv')"
      then obtain j where j: "j < n" "li' = word_of_nat j" "lv' = LRU (ts ! j)"
        "sint lv < sint lv'" "\<forall>i. j < i \<and> i < n \<longrightarrow> sint (LRU (ts ! i)) < sint lv'"
        by blast
      have "\<exists>j<Suc n. li' = word_of_nat j \<and> lv' = LRU (ts ! j) \<and> sint lv < sint lv' \<and>
           (\<forall>i. j < i \<and> i < Suc n \<longrightarrow> sint (LRU (ts ! i)) < sint lv')"
        using j ge by (intro exI [of _ j]) (auto simp: less_Suc_eq)
      then show ?thesis ..
    qed
    with eq all' le show ?thesis by auto
  qed
qed

lemma active_le: "active li \<le> 2147483648"
proof -
  have "sint li < 2 ^ (LENGTH(32) - 1)" by (rule sint_lt)
  then show ?thesis by (simp add: active_def)
qed

lemma active_pos_unat: "0 < active li \<Longrightarrow> unat li = active li - 1"
proof -
  assume "0 < active li"
  then have nn: "0 \<le> sint li" by (simp add: active_def)
  have "sint li < 2 ^ (LENGTH(32) - 1)" by (rule sint_lt)
  then have "sint li < 2 ^ 32" by simp
  with nn have "take_bit 32 (sint li) = sint li" by (simp add: take_bit_int_eq_self)
  then have "sint li = uint li" by (simp add: uint_sint)
  then show ?thesis using nn by (simp add: active_def nat_add_distrib)
qed

lemma unat_of_nat_slot: "j < active li \<Longrightarrow> unat (word_of_nat j :: UINT32) = j"
  using active_le [of li] by (simp add: unat_of_nat)

lemma LRU_Replace_cases:
  assumes le: "active li \<le> length ts" and li: "unat li < length ts"
  shows "\<exists>j<length ts. LRU_Replace ts li tag' = Inr (CACHE_SET_LRU (ts[j := tag'\<lparr>LRU := 0\<rparr>]) li) \<and>
     ((j = unat li \<and> (\<forall>i<active li. sint (LRU (ts ! i)) \<le> 0)) \<or>
      (j < active li \<and> 0 < sint (LRU (ts ! j)) \<and>
       (\<forall>i<active li. sint (LRU (ts ! i)) \<le> sint (LRU (ts ! j))) \<and>
       (\<forall>i. j < i \<and> i < active li \<longrightarrow> sint (LRU (ts ! i)) < sint (LRU (ts ! j)))))"
proof -
  from LRU_Replace_loop_props [OF le, of li 0]
  obtain li' lv' where r: "LRU_Replace_loop (active li) ts (li, 0) = Inr (li', lv')"
    and nn: "0 \<le> sint lv'"
    and all: "\<forall>i<active li. sint (LRU (ts ! i)) \<le> sint lv'"
    and d: "(li' = li \<and> lv' = 0) \<or>
        (\<exists>j<active li. li' = word_of_nat j \<and> lv' = LRU (ts ! j) \<and> 0 < sint lv' \<and>
           (\<forall>i. j < i \<and> i < active li \<longrightarrow> sint (LRU (ts ! i)) < sint lv'))"
    by auto
  from d show ?thesis
  proof
    assume a: "li' = li \<and> lv' = 0"
    then have "LRU_Replace ts li tag' = Inr (CACHE_SET_LRU (ts[unat li := tag'\<lparr>LRU := 0\<rparr>]) li)"
      using r li by (simp add: LRU_Replace_def)
    then show ?thesis using a all li by (intro exI [of _ "unat li"]) auto
  next
    assume "\<exists>j<active li. li' = word_of_nat j \<and> lv' = LRU (ts ! j) \<and> 0 < sint lv' \<and>
           (\<forall>i. j < i \<and> i < active li \<longrightarrow> sint (LRU (ts ! i)) < sint lv')"
    then obtain j where j: "j < active li" "li' = word_of_nat j" "lv' = LRU (ts ! j)" "0 < sint lv'"
        "\<forall>i. j < i \<and> i < active li \<longrightarrow> sint (LRU (ts ! i)) < sint lv'"
      by blast
    have u: "unat li' = j" using j(1,2) by (simp add: unat_of_nat_slot)
    have "LRU_Replace ts li tag' = Inr (CACHE_SET_LRU (ts[j := tag'\<lparr>LRU := 0\<rparr>]) li)"
      using r u j(1) le by (simp add: LRU_Replace_def)
    then show ?thesis using j all le by (intro exI [of _ j]) auto
  qed
qed

lemma LRU_Find_eq:
  "active li \<le> length ts \<Longrightarrow>
   LRU_Find ts li tag' =
     Inr (\<exists>t \<in> set (take (active li) ts). tag_eq t tag',
          CACHE_SET_LRU (map (Find_slot tag') (take (active li) ts) @ drop (active li) ts) li)"
  by (simp add: LRU_Find_def LRU_Find_loop_eq)

lemma LRU_Replace_slot:
  assumes "0 < active li" and "active li \<le> length ts"
  shows "\<exists>j<active li.
     Replace (CACHE_SET_LRU ts li) tag' = Inr (CACHE_SET_LRU (ts[j := tag'\<lparr>LRU := 0\<rparr>]) li) \<and>
     ((j = active li - 1 \<and> (\<forall>i<active li. sint (LRU (ts ! i)) \<le> 0)) \<or>
      (0 < sint (LRU (ts ! j)) \<and>
       (\<forall>i<active li. sint (LRU (ts ! i)) \<le> sint (LRU (ts ! j))) \<and>
       (\<forall>i. j < i \<and> i < active li \<longrightarrow> sint (LRU (ts ! i)) < sint (LRU (ts ! j)))))"
proof -
  have u: "unat li = active li - 1" using assms(1) by (rule active_pos_unat)
  then have li: "unat li < length ts" using assms by simp
  from LRU_Replace_cases [OF assms(2) li, of tag']
  obtain j where j: "j < length ts"
    "LRU_Replace ts li tag' = Inr (CACHE_SET_LRU (ts[j := tag'\<lparr>LRU := 0\<rparr>]) li)"
    "(j = unat li \<and> (\<forall>i<active li. sint (LRU (ts ! i)) \<le> 0)) \<or>
      (j < active li \<and> 0 < sint (LRU (ts ! j)) \<and>
       (\<forall>i<active li. sint (LRU (ts ! i)) \<le> sint (LRU (ts ! j))) \<and>
       (\<forall>i. j < i \<and> i < active li \<longrightarrow> sint (LRU (ts ! i)) < sint (LRU (ts ! j))))"
    by blast
  have "j < active li" using j(3) u assms(1) by auto
  then show ?thesis
    using j u by (intro exI [of _ j]) (auto simp: Replace_def)
qed

lemma active_pred:
  assumes "a \<noteq> 0" and "a \<le> 2147483648"
  shows "active (a - 1) = unat a"
proof -
  have u: "unat (a - 1) = unat a - 1" using assms(1) by (rule unat_minus_one)
  have p: "0 < unat a" using assms(1) by (simp add: unat_gt_0)
  have le: "unat a \<le> 2147483648" using assms(2) by (simp add: word_le_nat_alt)
  have "uint (a - 1) = int (unat (a - 1))" by (rule uint_nat)
  then have e: "uint (a - 1) = int (unat a - 1)" by (simp only: u)
  with p le have lt: "uint (a - 1) < 2147483648" by linarith
  have "- 2147483648 \<le> uint (a - 1)" using uint_ge_0 [of "a - 1"] by linarith
  with lt have "signed_take_bit 31 (uint (a - 1)) = uint (a - 1)"
    by (simp add: signed_take_bit_int_eq_self)
  then have "sint (a - 1) = uint (a - 1)" by (simp add: sint_uint)
  with e have "sint (a - 1) = int (unat a - 1)" by (simp only:)
  with p show ?thesis
    unfolding active_def by linarith
qed

lemma LRU_Replace_choice:
  assumes "0 < active li" and "active li \<le> length ts"
  shows "\<exists>j<active li.
     Replace (CACHE_SET_LRU ts li) tag' = Inr (CACHE_SET_LRU (ts[j := tag'\<lparr>LRU := 0\<rparr>]) li) \<and>
     ((\<exists>i<active li. 0 < sint (LRU (ts ! i))) \<longrightarrow>
        (\<forall>i<active li. sint (LRU (ts ! i)) \<le> sint (LRU (ts ! j))) \<and>
        (\<forall>i. j < i \<and> i < active li \<longrightarrow> sint (LRU (ts ! i)) < sint (LRU (ts ! j)))) \<and>
     (\<not> (\<exists>i<active li. 0 < sint (LRU (ts ! i))) \<longrightarrow> j = active li - 1) \<and>
     ((\<forall>i<active li. LRU (ts ! i) = LRU (ts ! 0)) \<longrightarrow> j = active li - 1)"
proof -
  from LRU_Replace_slot [OF assms, of tag']
  obtain j where jj: "j < active li \<and>
    Replace (CACHE_SET_LRU ts li) tag' = Inr (CACHE_SET_LRU (ts[j := tag'\<lparr>LRU := 0\<rparr>]) li) \<and>
    ((j = active li - 1 \<and> (\<forall>i<active li. sint (LRU (ts ! i)) \<le> 0)) \<or>
      (0 < sint (LRU (ts ! j)) \<and>
       (\<forall>i<active li. sint (LRU (ts ! i)) \<le> sint (LRU (ts ! j))) \<and>
       (\<forall>i. j < i \<and> i < active li \<longrightarrow> sint (LRU (ts ! i)) < sint (LRU (ts ! j)))))" ..
  note j = conjunct1 [OF jj] conjunct1 [OF conjunct2 [OF jj]] conjunct2 [OF conjunct2 [OF jj]]
  have last: "active li - 1 < active li" using assms(1) by simp
  have pos: "(\<exists>i<active li. 0 < sint (LRU (ts ! i))) \<longrightarrow>
        (\<forall>i<active li. sint (LRU (ts ! i)) \<le> sint (LRU (ts ! j))) \<and>
        (\<forall>i. j < i \<and> i < active li \<longrightarrow> sint (LRU (ts ! i)) < sint (LRU (ts ! j)))"
  proof
    assume "\<exists>i<active li. 0 < sint (LRU (ts ! i))"
    then obtain i where i: "i < active li" "0 < sint (LRU (ts ! i))" by blast
    have "\<not> (\<forall>i<active li. sint (LRU (ts ! i)) \<le> 0)"
    proof
      assume "\<forall>i<active li. sint (LRU (ts ! i)) \<le> 0"
      with i(1) have "sint (LRU (ts ! i)) \<le> 0" by blast
      with i(2) show False by simp
    qed
    with j(3) show "(\<forall>i<active li. sint (LRU (ts ! i)) \<le> sint (LRU (ts ! j))) \<and>
        (\<forall>i. j < i \<and> i < active li \<longrightarrow> sint (LRU (ts ! i)) < sint (LRU (ts ! j)))"
      by blast
  qed
  have npos: "\<not> (\<exists>i<active li. 0 < sint (LRU (ts ! i))) \<longrightarrow> j = active li - 1"
  proof
    assume n: "\<not> (\<exists>i<active li. 0 < sint (LRU (ts ! i)))"
    have "\<not> 0 < sint (LRU (ts ! j))" using n j(1) by blast
    with j(3) show "j = active li - 1" by blast
  qed
  have eq: "(\<forall>i<active li. LRU (ts ! i) = LRU (ts ! 0)) \<longrightarrow> j = active li - 1"
  proof
    assume all: "\<forall>i<active li. LRU (ts ! i) = LRU (ts ! 0)"
    show "j = active li - 1"
    proof (rule ccontr)
      assume ne: "j \<noteq> active li - 1"
      then have lt: "j < active li - 1" using j(1) by simp
      have "LRU (ts ! (active li - 1)) = LRU (ts ! 0)" using all last by blast
      moreover have "LRU (ts ! j) = LRU (ts ! 0)" using all j(1) by blast
      ultimately have same: "sint (LRU (ts ! (active li - 1))) = sint (LRU (ts ! j))" by simp
      from j(3) ne have "\<forall>i. j < i \<and> i < active li \<longrightarrow> sint (LRU (ts ! i)) < sint (LRU (ts ! j))"
        by blast
      then have "sint (LRU (ts ! (active li - 1))) < sint (LRU (ts ! j))"
        using lt last by blast
      with same show False by simp
    qed
  qed
  from j(1) j(2) pos npos eq show ?thesis by (intro exI [of _ j] conjI)
qed

subsection \<open>Filling a fresh set\<close>

lemma sint_of_nat32: "x < 2147483648 \<Longrightarrow> sint (word_of_nat x :: INT32) = int x"
proof -
  assume x: "x < 2147483648"
  have "unat (word_of_nat x :: INT32) = x" using x by (simp add: unat_of_nat)
  moreover have "uint (word_of_nat x :: INT32) = int (unat (word_of_nat x :: INT32))" by (rule uint_nat)
  ultimately have u: "uint (word_of_nat x :: INT32) = int x" by (simp only:)
  have "sint (word_of_nat x :: INT32) = signed_take_bit 31 (uint (word_of_nat x :: INT32))"
    by (simp add: sint_uint)
  also have "\<dots> = int x" unfolding u using x by (simp add: signed_take_bit_int_eq_self)
  finally show ?thesis .
qed

lemma length_fill_state [simp]: "length (fill_state k n tgs m) = n"
  by (simp add: fill_state_def)

lemma nth_fill_state:
  "i < n \<Longrightarrow> fill_state k n tgs m ! i =
     (if i < k - m then (CACHE_TAG_ctor 0)\<lparr>LRU := word_of_nat m\<rparr>
      else if i < k then (tgs ! (k - 1 - i))\<lparr>LRU := word_of_nat (m - (k - i))\<rparr>
      else CACHE_TAG_ctor 0)"
  by (simp add: fill_state_def)

lemma fill_state_0: "fill_state k n tgs 0 = replicate n (CACHE_TAG_ctor 0)"
  by (intro nth_equalityI) (simp_all add: nth_fill_state CACHE_TAG_ctor_def)

lemma length_fill_probe [simp]: "length (fill_probe k n tgs m) = n"
  by (simp add: fill_probe_def)

lemma nth_fill_probe:
  "i < n \<Longrightarrow> fill_probe k n tgs m ! i =
     (if i < k - m then (CACHE_TAG_ctor 0)\<lparr>LRU := word_of_nat (Suc m)\<rparr>
      else if i < k then (tgs ! (k - 1 - i))\<lparr>LRU := word_of_nat (Suc (m - (k - i)))\<rparr>
      else CACHE_TAG_ctor 0)"
  by (simp add: fill_probe_def)

lemma fill_Find:
  assumes kn: "k \<le> n" and act: "active li = k" and mk: "m \<le> k"
    and new: "\<forall>j<m. tag_val (tgs ! j) \<noteq> tag_val t" and nz: "tag_val t \<noteq> 0"
  shows "Find (CACHE_SET_LRU (fill_state k n tgs m) li) t =
         Inr (False, CACHE_SET_LRU (fill_probe k n tgs m) li)"
proof -
  let ?S = "fill_state k n tgs m"
  have le: "active li \<le> length ?S" using kn act by simp
  have miss: "\<not> tag_eq (?S ! i) t" if i: "i < k" for i
  proof (cases "i < k - m")
    case True
    then show ?thesis using i kn nz by (simp add: nth_fill_state tag_eq_def CACHE_TAG_ctor_def)
  next
    case False
    then have "k - 1 - i < m" using i mk by simp
    with new have "tag_val (tgs ! (k - 1 - i)) \<noteq> tag_val t" by blast
    then show ?thesis using False i kn by (simp add: nth_fill_state tag_eq_def)
  qed
  have nohit: "\<not> (\<exists>x \<in> set (take (active li) ?S). tag_eq x t)"
  proof
    assume "\<exists>x \<in> set (take (active li) ?S). tag_eq x t"
    then obtain x where x: "x \<in> set (take k ?S)" "tag_eq x t" using act by blast
    from x(1) obtain i where "i < k" "x = ?S ! i" using kn by (auto simp: in_set_conv_nth)
    with x(2) miss show False by blast
  qed
  have "map (Find_slot t) (take k ?S) @ drop k ?S = fill_probe k n tgs m"
  proof (intro nth_equalityI)
    show "length (map (Find_slot t) (take k ?S) @ drop k ?S) = length (fill_probe k n tgs m)"
      using kn by simp
  next
    fix i assume "i < length (map (Find_slot t) (take k ?S) @ drop k ?S)"
    then have i: "i < n" using kn by simp
    show "(map (Find_slot t) (take k ?S) @ drop k ?S) ! i = fill_probe k n tgs m ! i"
    proof (cases "i < k")
      case True
      then have "(map (Find_slot t) (take k ?S) @ drop k ?S) ! i = Find_slot t (?S ! i)"
        using kn by (simp add: nth_append)
      also have "\<dots> = (?S ! i)\<lparr>LRU := LRU (?S ! i) + 1\<rparr>" using miss [OF True] by (simp add: Find_slot_def)
      also have "\<dots> = fill_probe k n tgs m ! i"
        using True i by (simp add: nth_fill_state nth_fill_probe)
      finally show ?thesis .
    next
      case False
      then show ?thesis using kn i by (simp add: nth_append nth_fill_state nth_fill_probe)
    qed
  qed
  then show ?thesis
    using LRU_Find_eq [OF le, of t] nohit act by (simp add: Find_def)
qed

lemma sint_fill_probe:
  assumes "i < k" and "k \<le> n" and "m \<le> k" and "k < 2147483648"
  shows "sint (LRU (fill_probe k n tgs m ! i)) = int (if i < k - m then Suc m else Suc (m - (k - i)))"
proof (cases "i < k - m")
  case True
  then have "Suc m < 2147483648" using assms by simp
  then show ?thesis using True assms by (simp add: nth_fill_probe sint_of_nat32 del: of_nat_Suc)
next
  case False
  have "Suc (m - (k - i)) < 2147483648" using assms by simp
  then show ?thesis using False assms by (simp add: nth_fill_probe sint_of_nat32 del: of_nat_Suc)
qed

lemma fill_Replace:
  assumes k0: "0 < k" and kn: "k \<le> n" and act: "active li = k" and mk: "m \<le> k"
    and kb: "k < 2147483648"
  shows "Replace (CACHE_SET_LRU (fill_probe k n tgs m) li) t =
     Inr (CACHE_SET_LRU ((fill_probe k n tgs m)[(if m < k then k - Suc m else k - 1) := t\<lparr>LRU := 0\<rparr>]) li)"
proof -
  let ?F = "fill_probe k n tgs m"
  let ?p = "if m < k then k - Suc m else k - 1"
  let ?val = "\<lambda>i. sint (LRU (?F ! i))"
  have val: "?val i = int (if i < k - m then Suc m else Suc (m - (k - i)))" if "i < k" for i
    using that kn mk kb by (rule sint_fill_probe)
  have pk: "?p < k" using k0 by simp
  have a0: "0 < active li" and al: "active li \<le> length ?F" using k0 kn act by simp_all
  from LRU_Replace_slot [OF a0 al, of t]
  obtain j where jj: "j < active li \<and>
    Replace (CACHE_SET_LRU ?F li) t = Inr (CACHE_SET_LRU (?F[j := t\<lparr>LRU := 0\<rparr>]) li) \<and>
    ((j = active li - 1 \<and> (\<forall>i<active li. ?val i \<le> 0)) \<or>
      (0 < ?val j \<and> (\<forall>i<active li. ?val i \<le> ?val j) \<and>
       (\<forall>i. j < i \<and> i < active li \<longrightarrow> ?val i < ?val j)))" ..
  then have jk: "j < k" and r: "Replace (CACHE_SET_LRU ?F li) t = Inr (CACHE_SET_LRU (?F[j := t\<lparr>LRU := 0\<rparr>]) li)"
    and d: "(\<forall>i<k. ?val i \<le> 0) \<or>
      ((\<forall>i<k. ?val i \<le> ?val j) \<and> (\<forall>i. j < i \<and> i < k \<longrightarrow> ?val i < ?val j))"
    unfolding act by blast+
  have vp: "0 < ?val ?p" using val [OF pk] by simp
  have "\<not> (\<forall>i<k. ?val i \<le> 0)"
  proof
    assume "\<forall>i<k. ?val i \<le> 0"
    with pk have "?val ?p \<le> 0" by blast
    with vp show False by simp
  qed
  with d have mx: "\<forall>i<k. ?val i \<le> ?val j" and st: "\<forall>i. j < i \<and> i < k \<longrightarrow> ?val i < ?val j"
    by blast+
  from mx pk have pj: "?val ?p \<le> ?val j" by blast
  have "j = ?p"
  proof (rule ccontr)
    assume ne: "j \<noteq> ?p"
    show False
    proof (cases "j < ?p")
      case True
      with st pk have "?val ?p < ?val j" by blast
      moreover have "?val j \<le> ?val ?p"
        using val [OF jk] val [OF pk] True by (simp split: if_splits)
      ultimately show False by simp
    next
      case False
      with ne have gt: "?p < j" by simp
      have "?val j < ?val ?p"
        using val [OF jk] val [OF pk] gt jk mk by (simp split: if_splits)
      with pj show False by simp
    qed
  qed
  with r show ?thesis by simp
qed

lemma fill_state_Suc:
  assumes "m < k" and "k \<le> n"
  shows "(fill_probe k n tgs m)[k - Suc m := (tgs ! m)\<lparr>LRU := 0\<rparr>] = fill_state k n tgs (Suc m)"
proof (intro nth_equalityI)
  show "length ((fill_probe k n tgs m)[k - Suc m := (tgs ! m)\<lparr>LRU := 0\<rparr>]) = length (fill_state k n tgs (Suc m))"
    by simp
next
  fix i assume "i < length ((fill_probe k n tgs m)[k - Suc m := (tgs ! m)\<lparr>LRU := 0\<rparr>])"
  then have i: "i < n" by simp
  have p: "k - Suc m < n" using assms by simp
  show "(fill_probe k n tgs m)[k - Suc m := (tgs ! m)\<lparr>LRU := 0\<rparr>] ! i = fill_state k n tgs (Suc m) ! i"
  proof (cases "i = k - Suc m")
    case True
    have "k - 1 - (k - Suc m) = m" using assms by simp
    moreover have "Suc m - (k - (k - Suc m)) = 0" using assms by simp
    ultimately show ?thesis using True p assms by (simp add: nth_fill_state)
  next
    case False
    have "Suc m - (k - i) = Suc (m - (k - i))" if "\<not> i < k - Suc m" "i < k"
      using that False assms by simp
    then show ?thesis
      using False i assms by (simp add: nth_list_update nth_fill_state nth_fill_probe)
  qed
qed

lemma load_seq_append:
  "load_seq s (xs @ ys) = (case load_seq s xs of Inl e \<Rightarrow> Inl e | Inr s' \<Rightarrow> load_seq s' ys)"
  by (induction xs arbitrary: s) (auto split: sum.splits prod.splits)

lemma load_miss:
  assumes k0: "0 < k" and kn: "k \<le> n" and act: "active li = k" and mk: "m \<le> k"
    and kb: "k < 2147483648"
    and new: "\<forall>j<m. tag_val (tgs ! j) \<noteq> tag_val t" and nz: "tag_val t \<noteq> 0"
  shows "load_seq (CACHE_SET_LRU (fill_state k n tgs m) li) [t] =
     Inr (CACHE_SET_LRU ((fill_probe k n tgs m)[(if m < k then k - Suc m else k - 1) := t\<lparr>LRU := 0\<rparr>]) li)"
  using fill_Find [OF kn act mk new nz] fill_Replace [OF k0 kn act mk kb, of tgs t]
  by simp

lemma load_fill:
  assumes k0: "0 < k" and kn: "k \<le> n" and act: "active li = k" and kb: "k < 2147483648"
    and len: "k \<le> length tgs"
    and d: "distinct (map tag_val tgs)" and nz: "0 \<notin> set (map tag_val tgs)"
  shows "m \<le> k \<Longrightarrow>
     load_seq (CACHE_SET_LRU (replicate n (CACHE_TAG_ctor 0)) li) (take m tgs) =
       Inr (CACHE_SET_LRU (fill_state k n tgs m) li)"
proof (induction m)
  case 0
  then show ?case by (simp add: fill_state_0)
next
  case (Suc m)
  then have mk: "m < k" by simp
  then have ml: "m < length tgs" using len by simp
  have new: "\<forall>j<m. tag_val (tgs ! j) \<noteq> tag_val (tgs ! m)"
  proof (intro allI impI)
    fix j assume jm: "j < m"
    then have jl: "j < length (map tag_val tgs)" and ml': "m < length (map tag_val tgs)"
      using ml by simp_all
    have "map tag_val tgs ! j \<noteq> map tag_val tgs ! m"
    proof
      assume "map tag_val tgs ! j = map tag_val tgs ! m"
      with d jl ml' have "j = m" by (simp only: nth_eq_iff_index_eq)
      with jm show False by simp
    qed
    then show "tag_val (tgs ! j) \<noteq> tag_val (tgs ! m)" using ml jm by simp
  qed
  have z: "tag_val (tgs ! m) \<noteq> 0"
  proof
    assume "tag_val (tgs ! m) = 0"
    then have "0 \<in> set (map tag_val tgs)" using ml by (metis length_map nth_map nth_mem)
    with nz show False by simp
  qed
  have mk': "m \<le> k" using mk by simp
  have t: "take (Suc m) tgs = take m tgs @ [tgs ! m]" using ml by (rule take_Suc_conv_app_nth)
  have "load_seq (CACHE_SET_LRU (fill_state k n tgs m) li) [tgs ! m] =
     Inr (CACHE_SET_LRU (fill_state k n tgs (Suc m)) li)"
    using load_miss [OF k0 kn act mk' kb new z] mk fill_state_Suc [OF mk kn, of tgs] by simp
  then show ?case
    unfolding t load_seq_append using Suc.IH [OF mk'] by simp
qed

lemma tag_val_fill_state:
  assumes "k \<le> n" and "k \<le> length tgs"
  shows "map tag_val (fill_state k n tgs k) = rev (map tag_val (take k tgs)) @ replicate (n - k) 0"
proof (intro nth_equalityI)
  show "length (map tag_val (fill_state k n tgs k)) = length (rev (map tag_val (take k tgs)) @ replicate (n - k) 0)"
    using assms by simp
next
  fix i assume "i < length (map tag_val (fill_state k n tgs k))"
  then have i: "i < n" by simp
  show "map tag_val (fill_state k n tgs k) ! i = (rev (map tag_val (take k tgs)) @ replicate (n - k) 0) ! i"
  proof (cases "i < k")
    case True
    have "rev (map tag_val (take k tgs)) ! i = map tag_val (take k tgs) ! (k - Suc i)"
      using True assms by (simp add: rev_nth)
    also have "\<dots> = tag_val (tgs ! (k - 1 - i))" using True assms by simp
    finally show ?thesis using True i assms by (simp add: nth_append nth_fill_state)
  next
    case False
    then show ?thesis using i assms by (simp add: nth_append nth_fill_state CACHE_TAG_ctor_def)
  qed
qed

lemma tag_val_fill_probe: "map tag_val (fill_probe k n tgs m) = map tag_val (fill_state k n tgs m)"
  by (intro nth_equalityI) (simp_all add: nth_fill_state nth_fill_probe)

lemma fresh_set_fill_then_evict:
  assumes a0: "a \<noteq> 0" and ab: "a < 2147483648" and aM: "a \<le> MAX_ASSOCIATIVITY"
    and len: "length tgs = Suc (unat a)"
    and d: "distinct (map tag_val tgs)" and nz: "0 \<notin> set (map tag_val tgs)"
  shows "\<exists>ts ts'.
     LRU_ctor MAX_ASSOCIATIVITY a =
       Inr (CACHE_SET_LRU (replicate (unat MAX_ASSOCIATIVITY) (CACHE_TAG_ctor 0)) (a - 1)) \<and>
     load_seq (CACHE_SET_LRU (replicate (unat MAX_ASSOCIATIVITY) (CACHE_TAG_ctor 0)) (a - 1)) (butlast tgs) =
       Inr (CACHE_SET_LRU ts (a - 1)) \<and>
     map tag_val ts = rev (map tag_val (butlast tgs)) @ replicate (unat MAX_ASSOCIATIVITY - unat a) 0 \<and>
     load_seq (CACHE_SET_LRU (replicate (unat MAX_ASSOCIATIVITY) (CACHE_TAG_ctor 0)) (a - 1)) tgs =
       Inr (CACHE_SET_LRU ts' (a - 1)) \<and>
     map tag_val ts' = (map tag_val ts)[unat a - 1 := tag_val (last tgs)]"
proof -
  let ?k = "unat a" and ?n = "unat MAX_ASSOCIATIVITY" and ?li = "a - 1"
  let ?s0 = "CACHE_SET_LRU (replicate ?n (CACHE_TAG_ctor 0)) ?li"
  have k0: "0 < ?k" using a0 by (simp add: unat_gt_0)
  have kn: "?k \<le> ?n" using aM by (simp add: word_le_nat_alt)
  have kb: "?k < 2147483648" using ab by (simp add: word_less_nat_alt)
  have "a \<le> 2147483648" using ab by simp
  with a0 have act: "active ?li = ?k" by (rule active_pred)
  have kl: "?k \<le> length tgs" using len by simp
  have bl: "butlast tgs = take ?k tgs" using len by (simp add: butlast_conv_take)
  have ne: "tgs \<noteq> []" using len by auto
  have la: "last tgs = tgs ! ?k" using len ne by (simp add: last_conv_nth)
  have sp: "tgs = take ?k tgs @ [tgs ! ?k]"
    using len by (metis lessI take_Suc_conv_app_nth take_all order_refl)
  have c: "LRU_ctor MAX_ASSOCIATIVITY a = Inr ?s0" using aM by (simp add: LRU_ctor_eq)
  have f: "load_seq ?s0 (take ?k tgs) = Inr (CACHE_SET_LRU (fill_state ?k ?n tgs ?k) ?li)"
    using load_fill [OF k0 kn act kb kl d nz, of ?k] by simp
  have new: "\<forall>j<?k. tag_val (tgs ! j) \<noteq> tag_val (tgs ! ?k)"
  proof (intro allI impI)
    fix j assume jk: "j < ?k"
    then have jl: "j < length (map tag_val tgs)" and kl': "?k < length (map tag_val tgs)"
      using len by simp_all
    have "map tag_val tgs ! j \<noteq> map tag_val tgs ! ?k"
    proof
      assume "map tag_val tgs ! j = map tag_val tgs ! ?k"
      with d jl kl' have "j = ?k" by (simp only: nth_eq_iff_index_eq)
      with jk show False by simp
    qed
    then show "tag_val (tgs ! j) \<noteq> tag_val (tgs ! ?k)" using len jk by simp
  qed
  have z: "tag_val (tgs ! ?k) \<noteq> 0"
  proof
    assume "tag_val (tgs ! ?k) = 0"
    moreover have "tgs ! ?k \<in> set tgs" using len by simp
    ultimately have "0 \<in> tag_val ` set tgs" by (metis imageI)
    with nz show False by simp
  qed
  let ?ts' = "(fill_probe ?k ?n tgs ?k)[?k - 1 := (tgs ! ?k)\<lparr>LRU := 0\<rparr>]"
  have m: "load_seq (CACHE_SET_LRU (fill_state ?k ?n tgs ?k) ?li) [tgs ! ?k] = Inr (CACHE_SET_LRU ?ts' ?li)"
    using load_miss [OF k0 kn act order_refl kb new z] by simp
  have "load_seq ?s0 (take ?k tgs @ [tgs ! ?k]) = Inr (CACHE_SET_LRU ?ts' ?li)"
    unfolding load_seq_append using f m by simp
  then have g: "load_seq ?s0 tgs = Inr (CACHE_SET_LRU ?ts' ?li)" using sp by simp
  have o: "map tag_val (fill_state ?k ?n tgs ?k) = rev (map tag_val (butlast tgs)) @ replicate (?n - ?k) 0"
    unfolding bl using kn kl by (rule tag_val_fill_state)
  have o': "map tag_val ?ts' = (map tag_val (fill_state ?k ?n tgs ?k))[?k - 1 := tag_val (last tgs)]"
    by (simp add: map_update tag_val_fill_probe la)
  from c f g o o' show ?thesis unfolding bl by blast
qed

section \<open>Properties of a single-line access\<close>

lemma tag_val_Find_slot [simp]: "tag_val (Find_slot tag' t) = tag_val t"
  by (simp add: Find_slot_def)

lemma Find_valid:
  assumes "valid_SET s"
  shows "\<exists>s'. Find s tag' = Inr (resident s (tag_val tag'), s') \<and> valid_SET s' \<and>
           ways s' = ways s \<and> occupancy s' = occupancy s"
proof (cases s)
  case (CACHE_SET_DIRECT_MAPPED t)
  then show ?thesis
    by (auto simp: Find_def DIRECT_MAPPED_Find_def tag_eq_def resident_def ways_def occupancy_def valid_SET_def)
next
  case (CACHE_SET_LRU ts li)
  with assms have le: "active li \<le> length ts" and li: "unat li < length ts"
    by (simp_all add: valid_SET_def)
  let ?ts' = "map (Find_slot tag') (take (active li) ts) @ drop (active li) ts"
  have len: "length ?ts' = length ts" using le by simp
  have occ: "map tag_val ?ts' = map tag_val ts"
  proof -
    have "map tag_val ?ts' = map tag_val (take (active li) ts) @ map tag_val (drop (active li) ts)"
      by (simp add: comp_def)
    also have "\<dots> = map tag_val (take (active li) ts @ drop (active li) ts)"
      by (simp only: map_append)
    finally show ?thesis by (simp only: append_take_drop_id)
  qed
  have res: "(\<exists>t \<in> set (take (active li) ts). tag_eq t tag') = resident s (tag_val tag')"
    using CACHE_SET_LRU
    by (auto simp: resident_def ways_def occupancy_def tag_eq_def take_map intro: rev_image_eqI)
  have "Find s tag' = Inr (resident s (tag_val tag'), CACHE_SET_LRU ?ts' li)"
    using CACHE_SET_LRU le res by (simp add: Find_def LRU_Find_eq)
  moreover have "valid_SET (CACHE_SET_LRU ?ts' li)"
    using le li len by (simp add: valid_SET_def)
  moreover have "ways (CACHE_SET_LRU ?ts' li) = ways s"
    using CACHE_SET_LRU by (simp add: ways_def)
  moreover have "occupancy (CACHE_SET_LRU ?ts' li) = occupancy s"
    using CACHE_SET_LRU occ by (simp add: occupancy_def)
  ultimately show ?thesis by blast
qed

lemma Replace_valid:
  assumes "valid_SET s"
  shows "\<exists>s'. Replace s tag' = Inr s' \<and> valid_SET s' \<and> ways s' = ways s"
proof (cases s)
  case (CACHE_SET_DIRECT_MAPPED t)
  then show ?thesis
    by (simp add: Replace_def DIRECT_MAPPED_Replace_def valid_SET_def ways_def)
next
  case (CACHE_SET_LRU ts li)
  with assms have le: "active li \<le> length ts" and li: "unat li < length ts"
    by (simp_all add: valid_SET_def)
  from LRU_Replace_cases [OF le li, of tag']
  obtain j where "LRU_Replace ts li tag' = Inr (CACHE_SET_LRU (ts[j := tag'\<lparr>LRU := 0\<rparr>]) li)"
    by blast
  then show ?thesis
    using CACHE_SET_LRU le li by (simp add: Replace_def valid_SET_def ways_def)
qed

lemma ucast_and_mask32: "(ucast (x AND ucast m :: ADDRINT) :: UINT32) = ucast x AND m"
  by (rule bit_word_eqI) (auto simp: bit_simps)

lemma setIndex_le: "snd (SplitAddress c addr 1) \<le> setIndexMask c"
  by (simp add: SplitAddress_def Let_def ucast_and_mask32 word_and_le1)

lemma setIndex_in_range:
  "unat (setIndexMask c) < length (sets c) \<Longrightarrow> unat (snd (SplitAddress c addr 1)) < length (sets c)"
  using setIndex_le [of c addr] by (simp add: word_le_nat_alt)

lemma AccessSingleLine_Inr:
  assumes "AccessSingleLine alloc c addr accessType = Inr (hit, c')"
  shows "\<exists>s'. unat (snd (SplitAddress c addr 1)) < length (sets c) \<and>
     c' = c\<lparr>sets := (sets c)[unat (snd (SplitAddress c addr 1)) := s'],
            access := count_access c accessType hit\<rparr>"
  using assms
  by (auto simp: AccessSingleLine_def count_access_def Let_def split: prod.splits if_splits sum.splits)

lemma AccessSingleLine_valid:
  assumes ix: "unat (snd (SplitAddress c addr 1)) < length (sets c)" and v: "valid_sets c"
  shows "\<exists>s'. AccessSingleLine alloc c addr accessType =
       Inr (resident (sets c ! unat (snd (SplitAddress c addr 1))) (tag_val (fst (SplitAddress c addr 1))),
            c\<lparr>sets := (sets c)[unat (snd (SplitAddress c addr 1)) := s'],
              access := count_access c accessType
                (resident (sets c ! unat (snd (SplitAddress c addr 1))) (tag_val (fst (SplitAddress c addr 1))))\<rparr>) \<and>
     valid_SET s' \<and> ways s' = ways (sets c ! unat (snd (SplitAddress c addr 1))) \<and>
     (resident (sets c ! unat (snd (SplitAddress c addr 1))) (tag_val (fst (SplitAddress c addr 1))) \<or>
      \<not> (accessType = ACCESS_TYPE_LOAD \<or> alloc = STORE_ALLOCATE) \<longrightarrow>
        occupancy s' = occupancy (sets c ! unat (snd (SplitAddress c addr 1))))"
proof -
  obtain tag' setIndex where sp: "SplitAddress c addr 1 = (tag', setIndex)" by (cases "SplitAddress c addr 1")
  let ?s = "sets c ! unat setIndex"
  have vs: "valid_SET ?s" using v ix sp by (simp add: valid_sets_def list_all_length)
  from Find_valid [OF vs, of tag']
  obtain s1 where f: "Find ?s tag' = Inr (resident ?s (tag_val tag'), s1)" and v1: "valid_SET s1"
    and w1: "ways s1 = ways ?s" and o1: "occupancy s1 = occupancy ?s"
    by blast
  from Replace_valid [OF v1, of tag']
  obtain s2 where r: "Replace s1 tag' = Inr s2" and v2: "valid_SET s2" and w2: "ways s2 = ways s1"
    by blast
  show ?thesis
  proof (cases "\<not> resident ?s (tag_val tag') \<and> (accessType = ACCESS_TYPE_LOAD \<or> alloc = STORE_ALLOCATE)")
    case True
    then show ?thesis
      using sp ix f r v2 w2 w1
      by (intro exI [of _ s2]) (auto simp: AccessSingleLine_def count_access_def)
  next
    case False
    then show ?thesis
      using sp ix f v1 w1 o1
      by (intro exI [of _ s1]) (auto simp: AccessSingleLine_def count_access_def)
  qed
qed

lemma SplitAddress_update [simp]:
  "SplitAddress (c\<lparr>sets := ss, access := f\<rparr>) addr level = SplitAddress c addr level"
  by (simp add: SplitAddress_def)

lemma valid_sets_update:
  "valid_sets c \<Longrightarrow> valid_SET s' \<Longrightarrow> valid_sets (c\<lparr>sets := (sets c)[i := s'], access := f\<rparr>)"
  by (cases "i < length (sets c)") (auto simp: valid_sets_def list_all_length nth_list_update)

lemma AccessSingleLine_total:
  assumes "valid_CACHE c"
  shows "\<exists>hit c'. AccessSingleLine alloc c addr accessType = Inr (hit, c') \<and> valid_CACHE c'"
proof -
  have ix: "unat (snd (SplitAddress c addr 1)) < length (sets c)"
    using assms by (simp add: valid_CACHE_def setIndex_in_range)
  have v: "valid_sets c" using assms by (simp add: valid_CACHE_def)
  from AccessSingleLine_valid [OF ix v, of alloc accessType]
  obtain s' hit where r: "AccessSingleLine alloc c addr accessType =
       Inr (hit, c\<lparr>sets := (sets c)[unat (snd (SplitAddress c addr 1)) := s'],
              access := count_access c accessType hit\<rparr>)" and "valid_SET s'"
    by blast
  then have "valid_CACHE (c\<lparr>sets := (sets c)[unat (snd (SplitAddress c addr 1)) := s'],
              access := count_access c accessType hit\<rparr>)"
    using assms valid_sets_update [OF v] by (simp add: valid_CACHE_def)
  with r show ?thesis by blast
qed

lemma AccessSingleLine_seq_total:
  "valid_CACHE c \<Longrightarrow> \<exists>c'. AccessSingleLine_seq alloc c ops = Inr c'"
proof (induction ops arbitrary: c)
  case Nil
  then show ?case by simp
next
  case (Cons op ops)
  obtain addr accessType where op: "op = (addr, accessType)" by (cases op)
  from AccessSingleLine_total [OF Cons.prems, of alloc addr accessType]
  obtain hit c' where "AccessSingleLine alloc c addr accessType = Inr (hit, c')" "valid_CACHE c'"
    by blast
  then show ?case using Cons.IH [of c'] op by simp
qed

lemma AccessSingleLine_access:
  assumes "AccessSingleLine alloc c addr accessType = Inr (hit, c')"
  shows "access c' = (access c)(accessType := (access c accessType)(hit := access c accessType hit + 1))"
    and "l2_access c' = l2_access c"
  using AccessSingleLine_Inr [OF assms] by (auto simp: count_access_def)

lemma AccessSingleLine_Accesses:
  assumes "AccessSingleLine alloc c addr accessType = Inr (hit, c')"
  shows "Accesses c' t = Accesses c t + (if accessType = t then 1 else 0)"
  using AccessSingleLine_access(1) [OF assms]
  by (cases hit) (simp_all add: Accesses_def Hits_def Misses_def)

lemma AccessSingleLine_seq_Accesses:
  "AccessSingleLine_seq alloc c ops = Inr c' \<Longrightarrow>
   Accesses c' t = Accesses c t + word_of_nat (length (filter (\<lambda>op. snd op = t) ops))"
proof (induction ops arbitrary: c)
  case Nil
  then show ?case by simp
next
  case (Cons op ops)
  obtain addr accessType where op: "op = (addr, accessType)" by (cases op)
  from Cons.prems op obtain hit c1 where
    1: "AccessSingleLine alloc c addr accessType = Inr (hit, c1)" and
    2: "AccessSingleLine_seq alloc c1 ops = Inr c'"
    by (auto split: sum.splits)
  show ?case
    using Cons.IH [OF 2] AccessSingleLine_Accesses [OF 1, of t] op by simp
qed

lemma Inr_projr: "\<not> isl x \<Longrightarrow> x = Inr (fst (projr x), snd (projr x))"
  by (cases x) auto

lemma Inr_projr1: "\<not> isl x \<Longrightarrow> x = Inr (projr x)"
  by (cases x) auto

text \<open>The example cache is constructed, and accesses to it return.\<close>

lemma example_cache_valid: "\<not> isl example_cache \<and> valid_CACHE (projr example_cache) \<and> NumSets (projr example_cache) = 4"
  by code_simp

lemma example_cache_store_miss: "\<not> isl (AccessSingleLine STORE_NO_ALLOCATE (projr example_cache) 0x40 ACCESS_TYPE_STORE)
   \<and> \<not> fst (projr (AccessSingleLine STORE_NO_ALLOCATE (projr example_cache) 0x40 ACCESS_TYPE_STORE))"
  by code_simp

lemma example_cache_store: "\<not> isl (AccessSingleLine STORE_ALLOCATE (projr example_cache) 0x40 ACCESS_TYPE_STORE)"
  by code_simp

lemma example_cache_seq: "\<not> isl (AccessSingleLine_seq STORE_ALLOCATE (projr example_cache)
     [(0x40, ACCESS_TYPE_STORE), (0x48, ACCESS_TYPE_LOAD), (0x1040, ACCESS_TYPE_LOAD)])"
  by code_simp

text \<open>A load changes the set it falls on as \<open>load_seq\<close> says.\<close>

lemma AccessSingleLine_load_seq:
  assumes "AccessSingleLine alloc c addr ACCESS_TYPE_LOAD = Inr (hit, c')"
  shows "load_seq (sets c ! unat (snd (SplitAddress c addr 1))) [fst (SplitAddress c addr 1)] =
         Inr (sets c' ! unat (snd (SplitAddress c addr 1)))"
  using assms
  by (auto simp: AccessSingleLine_def Let_def split: prod.splits if_splits sum.splits)

section \<open>Properties of the multi-line access\<close>

lemma Access_loop_result:
  assumes "Access_loop lineSize' notLineMask highAddr allHit addr = Some y"
  shows "y = allHit"
proof (rule Access_loop.raw_induct [where P = "\<lambda>l m h r a y. y = r", OF _ assms])
  fix f l m h r a y
  assume "\<And>l m h r a y. f l m h r a = Some y \<Longrightarrow> y = r"
    and "(if (a AND m) + l < h then f l m h (r \<and> True) ((a AND m) + l) else Some (r \<and> True)) = Some y"
  then show "y = r" by (auto split: if_splits)
qed

lemma Access_Some: "Access c addr size' accessType = Some (allHit, c') \<Longrightarrow> allHit \<and> c' = c"
  by (auto simp: Access_def Let_def split: option.splits dest: Access_loop_result)

subsection \<open>Powers of two\<close>

lemma nat_and_pred_zero:
  fixes n :: nat
  shows "0 < n \<Longrightarrow> n AND (n - 1) = 0 \<Longrightarrow> \<exists>k. n = 2 ^ k"
proof (induction n rule: less_induct)
  case (less n)
  show ?case
  proof (cases "even n")
    case True
    then obtain m where m: "n = 2 * m" by (auto elim: evenE)
    with less.prems(1) have mp: "0 < m" by simp
    have d: "(n - 1) div 2 = m - 1" using m mp by (cases m) simp_all
    have "n AND (n - 1) = 2 * (m AND (m - 1))"
      using m True d by (subst and_nat_rec) simp
    with less.prems(2) have "m AND (m - 1) = 0" by simp
    moreover have "m < n" using m mp by simp
    ultimately obtain k where "m = 2 ^ k" using less.IH [of m] mp by blast
    then have "n = 2 ^ Suc k" using m by simp
    then show ?thesis by blast
  next
    case False
    then obtain m where m: "n = 2 * m + 1" by (auto elim: oddE)
    have "n AND (n - 1) = 2 * (m AND m)"
      using m by (subst and_nat_rec) simp
    with less.prems(2) have "m = 0" by simp
    then have "n = 2 ^ 0" using m by simp
    then show ?thesis by blast
  qed
qed

lemma IsPower2_exp:
  assumes "IsPower2 n" and "n \<noteq> 0"
  shows "\<exists>k<32. n = 2 ^ k"
proof -
  have p: "0 < unat n" using assms(2) by (simp add: unat_gt_0)
  have "unat (n AND (n - 1)) = 0" using assms(1) by (simp add: IsPower2_def)
  then have "unat n AND unat (n - 1) = 0" by (simp add: unsigned_and_eq)
  then have "unat n AND (unat n - 1) = 0" using assms(2) by (simp add: unat_minus_one)
  with p obtain k where k: "unat n = 2 ^ k" using nat_and_pred_zero by blast
  have "unat n < 2 ^ 32" using unsigned_less [of n] by simp
  with k have "(2::nat) ^ k < 2 ^ 32" by simp
  then have k32: "k < 32" by (rule power_less_imp_less_exp [rotated]) simp
  have "n = word_of_nat (unat n)" by simp
  also have "\<dots> = 2 ^ k" unfolding k by simp
  finally show ?thesis using k32 by blast
qed

subsection \<open>Addresses aligned to a line of \<open>2 ^ k\<close> bytes\<close>

lemma ucast_exp: "k < 32 \<Longrightarrow> (ucast (2 ^ k :: UINT32) :: ADDRINT) = 2 ^ k"
  by (rule bit_word_eqI) (auto simp: bit_simps)

lemma aligned_and: "take_bit k ((a :: ADDRINT) AND NOT (mask k)) = 0"
  by (rule bit_word_eqI) (auto simp: bit_simps)

lemma aligned_keep: "take_bit k (a :: ADDRINT) = 0 \<Longrightarrow> a AND NOT (mask k) = a"
proof -
  assume z: "take_bit k a = 0"
  have low: "\<not> bit a n" if "n < k" for n
  proof
    assume "bit a n"
    with that have "bit (take_bit k a) n" by (simp add: bit_take_bit_iff)
    with z show False by simp
  qed
  show ?thesis
    by (rule bit_word_eqI) (auto simp: bit_simps dest: low)
qed

lemma aligned_add: "take_bit k (a :: ADDRINT) = 0 \<Longrightarrow> take_bit k (a + 2 ^ k) = 0"
proof -
  assume z: "take_bit k a = 0"
  have "push_bit k (drop_bit k a) + take_bit k a = a" by (rule bits_ident)
  with z have "a = push_bit k (drop_bit k a)" by simp
  then have "a + 2 ^ k = push_bit k (drop_bit k a) + push_bit k 1" by simp
  also have "\<dots> = push_bit k (drop_bit k a + 1)" by (simp only: push_bit_add)
  finally have "take_bit k (a + 2 ^ k) = take_bit k (push_bit k (drop_bit k a + 1))" by simp
  also have "\<dots> = 0" by (simp add: take_bit_push_bit)
  finally show ?thesis .
qed

lemma aligned_bound:
  assumes "take_bit k (a :: ADDRINT) = 0" and "k < 64"
  shows "unat a + 2 ^ k \<le> 2 ^ 64"
proof -
  have "unat (take_bit k a) = take_bit k (unat a)" by (rule unsigned_take_bit_eq)
  with assms(1) have "take_bit k (unat a) = 0" by simp
  then have "unat a mod 2 ^ k = 0" by (simp add: take_bit_eq_mod)
  then obtain q where q: "unat a = 2 ^ k * q" by (auto simp: mod_eq_0_iff_dvd elim: dvdE)
  have e: "(2::nat) ^ 64 = 2 ^ k * 2 ^ (64 - k)" using assms(2) by (simp flip: power_add)
  have "unat a < 2 ^ 64" using unsigned_less [of a] by simp
  then have "2 ^ k * q < 2 ^ k * 2 ^ (64 - k)" using q e by simp
  then have "q < 2 ^ (64 - k)" by simp
  then have "Suc q \<le> 2 ^ (64 - k)" by simp
  then have "2 ^ k * Suc q \<le> 2 ^ k * 2 ^ (64 - k)" by (rule mult_le_mono2)
  then show ?thesis using q e by simp
qed

lemma unat_exp32: "k < 32 \<Longrightarrow> unat (2 ^ k :: UINT32) = 2 ^ k"
proof -
  assume k: "k < 32"
  have "(2 ^ k :: UINT32) = word_of_nat (2 ^ k)" by simp
  then have "unat (2 ^ k :: UINT32) = (2 ^ k) mod 2 ^ LENGTH(32)" by (simp only: unat_of_nat)
  also have "\<dots> = 2 ^ k" using power_strict_increasing [of k 32 "2::nat"] k by simp
  finally show ?thesis .
qed

subsection \<open>The walk over the lines\<close>

lemma unat_exp64: "k < 64 \<Longrightarrow> unat (2 ^ k :: ADDRINT) = 2 ^ k"
proof -
  assume k: "k < 64"
  have "(2 ^ k :: ADDRINT) = word_of_nat (2 ^ k)" by simp
  then have "unat (2 ^ k :: ADDRINT) = (2 ^ k) mod 2 ^ LENGTH(64)" by (simp only: unat_of_nat)
  also have "\<dots> = 2 ^ k" using power_strict_increasing [of k 64 "2::nat"] k by simp
  finally show ?thesis .
qed

lemma Access_loop_aligned:
  assumes k: "k < 64" and H: "unat H + 2 ^ k \<le> 2 ^ 64"
  shows "take_bit k a = 0 \<Longrightarrow> a < H \<Longrightarrow> Access_loop (2 ^ k) (NOT (mask k)) H r a = Some r"
proof (induction "unat H - unat a" arbitrary: a rule: less_induct)
  case less
  have keep: "a AND NOT (mask k) = a" using less.prems(1) by (rule aligned_keep)
  have lt: "unat a < unat H" using less.prems(2) by (simp add: word_less_nat_alt)
  with H have "unat a + 2 ^ k < 2 ^ 64" by simp
  then have "unat a + unat (2 ^ k :: ADDRINT) < 2 ^ LENGTH(64)" using k by (simp add: unat_exp64)
  then have "unat (a + 2 ^ k) = unat a + unat (2 ^ k :: ADDRINT)" by (rule unat_add_lem [THEN iffD1])
  then have u: "unat (a + 2 ^ k) = unat a + 2 ^ k" using k by (simp add: unat_exp64)
  show ?case
  proof (cases "a + 2 ^ k < H")
    case True
    have "0 < (2::nat) ^ k" by simp
    with u lt have "unat H - unat (a + 2 ^ k) < unat H - unat a" by linarith
    moreover have "take_bit k (a + 2 ^ k) = 0" using less.prems(1) by (rule aligned_add)
    ultimately have "Access_loop (2 ^ k) (NOT (mask k)) H r (a + 2 ^ k) = Some r"
      using True by (rule less.hyps)
    then show ?thesis using True keep by (subst Access_loop.simps) simp
  next
    case False
    then show ?thesis using keep by (subst Access_loop.simps) simp
  qed
qed

lemma Access_loop_returns:
  assumes k: "k < 64" and H: "unat H + 2 ^ k \<le> 2 ^ 64"
  shows "Access_loop (2 ^ k) (NOT (mask k)) H r a = Some r"
proof (cases "(a AND NOT (mask k)) + 2 ^ k < H")
  case True
  have "take_bit k ((a AND NOT (mask k)) + 2 ^ k) = 0"
    using aligned_and by (rule aligned_add)
  then have "Access_loop (2 ^ k) (NOT (mask k)) H r ((a AND NOT (mask k)) + 2 ^ k) = Some r"
    using True by (rule Access_loop_aligned [OF k H])
  then show ?thesis using True by (subst Access_loop.simps) simp
next
  case False
  then show ?thesis by (subst Access_loop.simps) simp
qed

lemma Access_loop_diverges:
  assumes k: "k < 64" and H: "2 ^ 64 < unat H + 2 ^ k"
  shows "Access_loop (2 ^ k) (NOT (mask k)) H r a = None"
proof (rule ccontr)
  assume "Access_loop (2 ^ k) (NOT (mask k)) H r a \<noteq> None"
  then obtain y where y: "Access_loop (2 ^ k) (NOT (mask k)) H r a = Some y" by blast
  show False
  proof (rule Access_loop.raw_induct
      [where P = "\<lambda>l m h r a y. \<not> (l = 2 ^ k \<and> m = NOT (mask k) \<and> h = H)", OF _ y, THEN notE])
    fix f l m h r a y
    assume ih: "\<And>l m h r a y. f l m h r a = Some y \<Longrightarrow> \<not> (l = 2 ^ k \<and> m = NOT (mask k) \<and> h = H)"
      and body: "(if (a AND m) + l < h then f l m h (r \<and> True) ((a AND m) + l) else Some (r \<and> True)) = Some y"
    show "\<not> (l = 2 ^ k \<and> m = NOT (mask k) \<and> h = H)"
    proof
      assume e: "l = 2 ^ k \<and> m = NOT (mask k) \<and> h = H"
      have "take_bit k ((a AND NOT (mask k)) + 2 ^ k) = 0"
        using aligned_and by (rule aligned_add)
      then have "unat ((a AND NOT (mask k)) + 2 ^ k) + 2 ^ k \<le> 2 ^ 64" using k by (rule aligned_bound)
      with H have "unat ((a AND NOT (mask k)) + 2 ^ k) < unat H" by simp
      then have "(a AND m) + l < h" using e by (simp add: word_less_nat_alt)
      with body have "f l m h (r \<and> True) ((a AND m) + l) = Some y" by simp
      from ih [OF this] e show False by simp
    qed
  next
    show "2 ^ k = 2 ^ k \<and> NOT (mask k :: ADDRINT) = NOT (mask k) \<and> H = H" by simp
  qed
qed

subsection \<open>Where the multi-line access returns\<close>

text \<open>
  On a cache whose line size is a power of two and not zero, as the constructor requires,
  for every address, size and access type whose end address \<open>addr + size\<close>, taken modulo
  \<open>2^64\<close>, is at most \<open>2^64 - lineSize\<close>, \<open>Access\<close> returns true and leaves the cache, its
  counters and its sets, as it was, whatever the cache holds.
\<close>

lemma Access_returns_true:
  assumes "IsPower2 (LineSize c)" and "LineSize c \<noteq> 0"
    and "unat (addr + ucast size') + unat (LineSize c) \<le> 2 ^ 64"
  shows "Access c addr size' accessType = Some (True, c)"
proof -
  from IsPower2_exp [OF assms(1,2)] obtain k where k: "k < 32" and l: "LineSize c = 2 ^ k" by blast
  have k64: "k < 64" using k by simp
  have u: "(ucast (LineSize c) :: ADDRINT) = 2 ^ k" unfolding l using k by (rule ucast_exp)
  have m: "NOT ((2 ^ k :: ADDRINT) - 1) = NOT (mask k)" by (simp add: mask_eq_decr_exp)
  have "unat (addr + ucast size') + 2 ^ k \<le> 2 ^ 64"
    using assms(3) k unfolding l by (simp add: unat_exp32)
  then have "Access_loop (2 ^ k) (NOT (mask k)) (addr + ucast size') True addr = Some True"
    by (rule Access_loop_returns [OF k64])
  then show ?thesis by (simp add: Access_def u m)
qed

lemma Access_returns_true_example:
  "IsPower2 (LineSize warm_cache) \<and> LineSize warm_cache \<noteq> 0 \<and>
   unat ((0x100 :: ADDRINT) + ucast (192 :: UINT32)) + unat (LineSize warm_cache) \<le> 2 ^ 64 \<and>
   Access warm_cache 0x100 192 ACCESS_TYPE_LOAD = Some (True, warm_cache)"
proof -
  have l: "LineSize warm_cache = 64" by code_simp
  have a: "IsPower2 (LineSize warm_cache)" unfolding l by (simp add: IsPower2_def)
  have b: "LineSize warm_cache \<noteq> 0" unfolding l by simp
  have c: "unat ((0x100 :: ADDRINT) + ucast (192 :: UINT32)) + unat (LineSize warm_cache) \<le> 2 ^ 64"
    unfolding l by simp
  from Access_returns_true [OF a b c, of ACCESS_TYPE_LOAD] a b c show ?thesis by blast
qed

section \<open>Properties of the constructors\<close>

lemma CACHE_BASE_ctor_Inr:
  assumes "CACHE_BASE_ctor name' cacheSize' lineSize' associativity' l2_cacheSize' l2_lineSize' l2_associativity' = Inr b"
  shows "associativity' * lineSize' \<noteq> 0" and "IsPower2 lineSize'"
    and "cacheSize b = cacheSize'" and "lineSize b = lineSize'" and "associativity b = associativity'"
    and "setIndexMask b = cacheSize' div (associativity' * lineSize') - 1"
    and "lineShift b = FloorLog2 lineSize'"
    and "access b = (\<lambda>accessType hit. 0)"
  using assms by (auto simp: CACHE_BASE_ctor_def Let_def split: if_splits)

lemma SetAssociativity_loop_Inr:
  "SetAssociativity_loop a i k ss = Inr ss' \<Longrightarrow>
   length ss' = length ss \<and>
   (\<forall>j<length ss. ss' ! j = ss ! j \<or> SetAssociativity (ss ! j) a = Inr (ss' ! j))"
proof (induction k arbitrary: i ss)
  case 0
  then show ?case by simp
next
  case (Suc k)
  from Suc.prems obtain s where i: "i < length ss" and s: "SetAssociativity (ss ! i) a = Inr s"
    and r: "SetAssociativity_loop a (Suc i) k (ss[i := s]) = Inr ss'"
    by (auto split: if_splits sum.splits)
  from Suc.IH [OF r] have len: "length ss' = length ss"
    and all: "\<forall>j<length ss. ss' ! j = ss[i := s] ! j \<or> SetAssociativity (ss[i := s] ! j) a = Inr (ss' ! j)"
    by simp_all
  have "ss' ! j = ss ! j \<or> SetAssociativity (ss ! j) a = Inr (ss' ! j)" if j: "j < length ss" for j
  proof (cases "j = i")
    case True
    from all j have "ss' ! j = ss[i := s] ! j \<or> SetAssociativity (ss[i := s] ! j) a = Inr (ss' ! j)" by blast
    then show ?thesis
    proof
      assume "ss' ! j = ss[i := s] ! j"
      then show ?thesis using True i s by simp
    next
      assume "SetAssociativity (ss[i := s] ! j) a = Inr (ss' ! j)"
      then have "SetAssociativity s a = Inr (ss' ! j)" using True i by simp
      moreover have "SetAssociativity s a = Inr s" using s
        by (auto simp: SetAssociativity_def DIRECT_MAPPED_SetAssociativity_def LRU_SetAssociativity_def
            split: SET.splits if_splits)
      ultimately show ?thesis using True s by simp
    qed
  next
    case False
    from all j have "ss' ! j = ss[i := s] ! j \<or> SetAssociativity (ss[i := s] ! j) a = Inr (ss' ! j)" by blast
    then show ?thesis using False by simp
  qed
  with len show ?case by simp
qed

lemma CACHE_ctor_Inr:
  assumes "CACHE_ctor cls MAX_SETS name' cacheSize' lineSize' associativity' l2_cacheSize' l2_lineSize' l2_associativity' = Inr c"
  shows "\<exists>b s. CACHE_BASE_ctor name' cacheSize' lineSize' associativity' l2_cacheSize' l2_lineSize' l2_associativity' = Inr b \<and>
     SET_ctor cls = Inr s \<and>
     SetAssociativity_loop associativity' 0 (unat (NumSets b)) (replicate (unat MAX_SETS) s) = Inr (sets c) \<and>
     CACHE_BASE.truncate c = b"
  using assms
  by (auto simp: CACHE_ctor_def CACHE_BASE.defs CACHE.defs split: sum.splits if_splits)

lemma CACHE_ctor_base:
  assumes "CACHE_ctor cls MAX_SETS name' cacheSize' lineSize' associativity' l2_cacheSize' l2_lineSize' l2_associativity' = Inr c"
  shows "associativity' * lineSize' \<noteq> 0" and "IsPower2 lineSize'"
    and "cacheSize c = cacheSize'" and "lineSize c = lineSize'" and "associativity c = associativity'"
    and "setIndexMask c = cacheSize' div (associativity' * lineSize') - 1"
    and "lineShift c = FloorLog2 lineSize'"
    and "access c = (\<lambda>accessType hit. 0)"
proof -
  from CACHE_ctor_Inr [OF assms] obtain b where
    b: "CACHE_BASE_ctor name' cacheSize' lineSize' associativity' l2_cacheSize' l2_lineSize' l2_associativity' = Inr b"
    and t: "CACHE_BASE.truncate c = b"
    by blast
  have f: "cacheSize c = cacheSize b" "lineSize c = lineSize b" "associativity c = associativity b"
    "setIndexMask c = setIndexMask b" "lineShift c = lineShift b" "access c = access b"
    using t by (auto simp: CACHE_BASE.defs)
  show "associativity' * lineSize' \<noteq> 0" and "IsPower2 lineSize'"
    and "cacheSize c = cacheSize'" and "lineSize c = lineSize'" and "associativity c = associativity'"
    and "setIndexMask c = cacheSize' div (associativity' * lineSize') - 1"
    and "lineShift c = FloorLog2 lineSize'"
    and "access c = (\<lambda>accessType hit. 0)"
    using CACHE_BASE_ctor_Inr [OF b] f by simp_all
qed

lemma geometry_product:
  fixes cs ls a :: UINT32
  assumes nz: "a * ls \<noteq> 0" and d: "unat a * unat ls dvd unat cs"
  shows "unat cs = unat (cs div (a * ls) - 1 + 1) * unat a * unat ls"
proof (cases "cs = 0")
  case True
  then show ?thesis by simp
next
  case False
  then have pos: "0 < unat cs" by (simp add: unat_gt_0)
  with d have le: "unat a * unat ls \<le> unat cs" by (rule dvd_imp_le)
  have "unat cs < 2 ^ LENGTH(32)" by (rule unsigned_less)
  with le have lt: "unat a * unat ls < 2 ^ LENGTH(32)" by simp
  then have m: "unat (a * ls) = unat a * unat ls" by (rule unat_mult_lem [THEN iffD1])
  have "unat (cs div (a * ls)) = unat cs div (unat a * unat ls)" by (simp add: unat_div m)
  moreover have "cs div (a * ls) - 1 + 1 = cs div (a * ls)" by simp
  ultimately have "unat (cs div (a * ls) - 1 + 1) * (unat a * unat ls) = unat cs"
    using d by simp
  then show ?thesis by (simp add: mult.assoc)
qed

lemma cold_LRU:
  assumes "a \<noteq> 0" and "a \<le> 2147483648" and "unat a \<le> n"
  shows "cold (CACHE_SET_LRU (replicate n (CACHE_TAG_ctor 0)) (a - 1))"
proof -
  have a: "active (a - 1) = unat a" using assms(1,2) by (rule active_pred)
  have p: "0 < unat a" using assms(1) by (simp add: unat_gt_0)
  have u: "unat (a - 1) < n" using assms(1,3) p by (simp add: unat_minus_one)
  have "take (unat a) (replicate n (0::ADDRINT)) = replicate (unat a) 0"
    using assms(3) by (simp add: min_def)
  then have "(0::ADDRINT) \<in> set (take (unat a) (replicate n 0))" using p by simp
  then show ?thesis
    using a u assms(3)
    by (simp add: cold_def valid_SET_def resident_def ways_def occupancy_def CACHE_TAG_ctor_def)
qed

lemma SET_ctor_cold:
  assumes "array_bounds cls MAX_SETS" and "SET_ctor cls = Inr s"
  shows "cold s"
proof (cases cls)
  case DIRECT_MAPPED_CLASS
  then show ?thesis using assms(2)
    by (auto simp: SET_ctor_def DIRECT_MAPPED_ctor_def cold_def valid_SET_def resident_def ways_def
        occupancy_def CACHE_TAG_ctor_def)
next
  case (LRU_CLASS A)
  with assms(1) have A: "A \<noteq> 0" "A \<le> 2147483648" by (simp_all add: array_bounds_def)
  from assms(2) LRU_CLASS have "s = CACHE_SET_LRU (replicate (unat A) (CACHE_TAG_ctor 0)) (A - 1)"
    by (simp add: SET_ctor_def LRU_ctor_eq)
  then show ?thesis using cold_LRU [OF A, of "unat A"] by simp
qed

lemma SetAssociativity_cold:
  assumes "array_bounds cls MAX_SETS" and "SET_ctor cls = Inr s" and "a \<noteq> 0"
    and "SetAssociativity s a = Inr s'"
  shows "cold s'"
proof (cases cls)
  case DIRECT_MAPPED_CLASS
  then show ?thesis using assms(2,4)
    by (auto simp: SET_ctor_def DIRECT_MAPPED_ctor_def SetAssociativity_def DIRECT_MAPPED_SetAssociativity_def
        cold_def valid_SET_def resident_def ways_def occupancy_def CACHE_TAG_ctor_def split: if_splits)
next
  case (LRU_CLASS A)
  with assms(1) have A: "A \<noteq> 0" "A \<le> 2147483648" by (simp_all add: array_bounds_def)
  from assms(2) LRU_CLASS have s: "s = CACHE_SET_LRU (replicate (unat A) (CACHE_TAG_ctor 0)) (A - 1)"
    by (simp add: SET_ctor_def LRU_ctor_eq)
  from assms(4) have le: "unat a \<le> unat A"
    and s': "s' = CACHE_SET_LRU (replicate (unat A) (CACHE_TAG_ctor 0)) (a - 1)"
    unfolding s by (auto simp: SetAssociativity_def LRU_SetAssociativity_def split: if_splits)
  have "a \<le> 2147483648" using le A(2) by (simp add: word_le_nat_alt)
  then show ?thesis unfolding s' using assms(3) le by (intro cold_LRU)
qed

lemma CACHE_ctor_cold:
  assumes c: "CACHE_ctor cls MAX_SETS name' cacheSize' lineSize' associativity' l2_cacheSize' l2_lineSize' l2_associativity' = Inr c"
    and ab: "array_bounds cls MAX_SETS"
  shows "length (sets c) = unat MAX_SETS" and "list_all cold (sets c)"
proof -
  from CACHE_ctor_Inr [OF c] obtain b :: CACHE_BASE and s where
    s: "SET_ctor cls = Inr s"
    and l: "SetAssociativity_loop associativity' 0 (unat (NumSets b)) (replicate (unat MAX_SETS) s) = Inr (sets c)"
    by blast
  have nz: "associativity' \<noteq> 0" using CACHE_ctor_base(1) [OF c] by auto
  from SetAssociativity_loop_Inr [OF l]
  have len: "length (sets c) = unat MAX_SETS"
    and all: "\<forall>j<unat MAX_SETS. sets c ! j = s \<or> SetAssociativity s associativity' = Inr (sets c ! j)"
    by simp_all
  show "length (sets c) = unat MAX_SETS" by (rule len)
  have "cold (sets c ! j)" if "j < unat MAX_SETS" for j
  proof -
    from all that have "sets c ! j = s \<or> SetAssociativity s associativity' = Inr (sets c ! j)" by blast
    then show ?thesis
      using SET_ctor_cold [OF ab s] SetAssociativity_cold [OF ab s nz] by auto
  qed
  then show "list_all cold (sets c)" using len by (simp add: list_all_length)
qed

lemma tag_zero_index_zero:
  "tag_val (fst (SplitAddress c addr 1)) = 0 \<Longrightarrow> snd (SplitAddress c addr 1) = 0"
  by (simp add: SplitAddress_def Let_def)

lemma holds_zero_hit:
  assumes h: "holds_zero c" and z: "tag_val (fst (SplitAddress c addr 1)) = 0"
  shows "\<exists>c'. AccessSingleLine alloc c addr accessType = Inr (True, c')"
proof -
  have i: "snd (SplitAddress c addr 1) = 0" using z by (rule tag_zero_index_zero)
  have ix: "unat (snd (SplitAddress c addr 1)) < length (sets c)" using h i by (simp add: holds_zero_def)
  have v: "valid_sets c" using h by (simp add: holds_zero_def)
  have r: "resident (sets c ! unat (snd (SplitAddress c addr 1))) (tag_val (fst (SplitAddress c addr 1)))"
    using h i z by (simp add: holds_zero_def)
  from AccessSingleLine_valid [OF ix v, of alloc accessType] r show ?thesis by auto
qed

lemma holds_zero_step:
  assumes h: "holds_zero c"
    and o: "tag_val (fst (SplitAddress c addr 1)) = 0 \<or> snd (SplitAddress c addr 1) \<noteq> 0"
    and a: "AccessSingleLine alloc c addr accessType = Inr (hit, c')"
  shows "holds_zero c' \<and> (\<forall>addr'. SplitAddress c' addr' 1 = SplitAddress c addr' 1)"
proof -
  let ?i = "unat (snd (SplitAddress c addr 1))"
  let ?v = "tag_val (fst (SplitAddress c addr 1))"
  from AccessSingleLine_Inr [OF a] have ix: "?i < length (sets c)" by blast
  have v: "valid_sets c" and p: "0 < length (sets c)" and r0: "resident (sets c ! 0) 0"
    using h by (simp_all add: holds_zero_def)
  from AccessSingleLine_valid [OF ix v, of alloc accessType] a
  obtain s' where c': "c' = c\<lparr>sets := (sets c)[?i := s'], access := count_access c accessType hit\<rparr>"
    and hit: "hit = resident (sets c ! ?i) ?v"
    and vs: "valid_SET s'" and w: "ways s' = ways (sets c ! ?i)"
    and occ: "hit \<longrightarrow> occupancy s' = occupancy (sets c ! ?i)"
    by auto
  have v': "valid_sets c'" unfolding c' using v vs by (rule valid_sets_update)
  have g: "\<forall>addr'. SplitAddress c' addr' 1 = SplitAddress c addr' 1" unfolding c' by simp
  have r': "resident (sets c' ! 0) 0"
  proof (cases "?i = 0")
    case True
    then have "snd (SplitAddress c addr 1) = 0" by (simp add: unat_eq_zero)
    with o have z: "?v = 0" by simp
    then have "hit" using hit True r0 by simp
    with occ w have "resident s' 0 = resident (sets c ! ?i) 0" by (simp add: resident_def)
    then show ?thesis unfolding c' using True r0 p by simp
  next
    case False
    then show ?thesis unfolding c' using r0 by simp
  qed
  from v' r' p g show ?thesis unfolding holds_zero_def c' by simp
qed

lemma holds_zero_seq:
  assumes "holds_zero c"
    and "\<forall>op \<in> set ops. tag_val (fst (SplitAddress c (fst op) 1)) = 0 \<or> snd (SplitAddress c (fst op) 1) \<noteq> 0"
    and "AccessSingleLine_seq alloc c ops = Inr c'"
  shows "holds_zero c' \<and> (\<forall>addr'. SplitAddress c' addr' 1 = SplitAddress c addr' 1)"
  using assms
proof (induction ops arbitrary: c)
  case Nil
  then show ?case by simp
next
  case (Cons op ops)
  obtain addr accessType where op: "op = (addr, accessType)" by (cases op)
  from Cons.prems(3) op obtain hit c1 where
    1: "AccessSingleLine alloc c addr accessType = Inr (hit, c1)" and
    2: "AccessSingleLine_seq alloc c1 ops = Inr c'"
    by (auto split: sum.splits)
  have o: "tag_val (fst (SplitAddress c addr 1)) = 0 \<or> snd (SplitAddress c addr 1) \<noteq> 0"
    using Cons.prems(2) op by simp
  from holds_zero_step [OF Cons.prems(1) o 1]
  have h1: "holds_zero c1" and g1: "\<forall>addr'. SplitAddress c1 addr' 1 = SplitAddress c addr' 1"
    by simp_all
  have o1: "\<forall>op \<in> set ops. tag_val (fst (SplitAddress c1 (fst op) 1)) = 0 \<or> snd (SplitAddress c1 (fst op) 1) \<noteq> 0"
    using Cons.prems(2) g1 by simp
  from Cons.IH [OF h1 o1 2] g1 show ?case by simp
qed

lemma CACHE_ctor_NumSets:
  assumes "CACHE_ctor cls MAX_SETS name' cacheSize' lineSize' associativity' l2_cacheSize' l2_lineSize' l2_associativity' = Inr c"
  shows "NumSets c \<le> MAX_SETS"
  using assms
  by (auto simp: CACHE_ctor_def CACHE_BASE.defs CACHE.defs NumSets_def split: sum.splits if_splits)

text \<open>Every cache that is constructed with at least one set is a valid cache, and single-line
  accesses keep it so.\<close>

lemma CACHE_ctor_valid:
  assumes c: "CACHE_ctor cls MAX_SETS name' cacheSize' lineSize' associativity' l2_cacheSize' l2_lineSize' l2_associativity' = Inr c"
    and ab: "array_bounds cls MAX_SETS"
  shows "valid_sets c" and "NumSets c \<noteq> 0 \<Longrightarrow> valid_CACHE c"
proof -
  from CACHE_ctor_cold [OF c ab] have len: "length (sets c) = unat MAX_SETS" and cold: "list_all cold (sets c)"
    by simp_all
  show v: "valid_sets c" using cold by (simp add: valid_sets_def list_all_length cold_def)
  assume nz: "NumSets c \<noteq> 0"
  have "unat (NumSets c - 1) = unat (NumSets c) - 1" using nz by (rule unat_minus_one)
  moreover have "NumSets c - 1 = setIndexMask c" by (simp add: NumSets_def)
  moreover have "0 < unat (NumSets c)" using nz by (simp add: unat_gt_0)
  moreover have "unat (NumSets c) \<le> unat MAX_SETS"
    using CACHE_ctor_NumSets [OF c] by (simp add: word_le_nat_alt)
  ultimately have "unat (setIndexMask c) < unat MAX_SETS" by simp
  then show "valid_CACHE c" using v len by (simp add: valid_CACHE_def)
qed

section \<open>The claims\<close>

text \<open>
  C1: a multi-line access over three lines of which the first and the third hit and the
  second misses should return false and count two hits and one miss. \<open>Access\<close> does not
  look at the lines: on the example cache holding the lines at 0x100 and 0x180, where single
  accesses to 0x100, 0x140 and 0x180 hit, miss and hit, \<open>Access\<close> of the 192 bytes at 0x100
  returns true and leaves the cache, counters included, as it was; the three single-line
  accesses would have counted two hits and one miss.
\<close>

theorem Access_skips_the_lines:
  "map_option fst (Access warm_cache 0x100 192 ACCESS_TYPE_LOAD) = Some True \<and>
   map_option snd (Access warm_cache 0x100 192 ACCESS_TYPE_LOAD) = Some warm_cache \<and>
   map_sum id fst (AccessSingleLine STORE_ALLOCATE warm_cache 0x100 ACCESS_TYPE_LOAD) = Inr True \<and>
   map_sum id fst (AccessSingleLine STORE_ALLOCATE warm_cache 0x140 ACCESS_TYPE_LOAD) = Inr False \<and>
   map_sum id fst (AccessSingleLine STORE_ALLOCATE warm_cache 0x180 ACCESS_TYPE_LOAD) = Inr True \<and>
   Hits warm_cache ACCESS_TYPE_LOAD = 0 \<and> Misses warm_cache ACCESS_TYPE_LOAD = 2 \<and>
   Hits (projr (AccessSingleLine_seq STORE_ALLOCATE warm_cache
     [(0x100, ACCESS_TYPE_LOAD), (0x140, ACCESS_TYPE_LOAD), (0x180, ACCESS_TYPE_LOAD)])) ACCESS_TYPE_LOAD = 2 \<and>
   Misses (projr (AccessSingleLine_seq STORE_ALLOCATE warm_cache
     [(0x100, ACCESS_TYPE_LOAD), (0x140, ACCESS_TYPE_LOAD), (0x180, ACCESS_TYPE_LOAD)])) ACCESS_TYPE_LOAD = 3"
proof -
  have l: "LineSize warm_cache = 64" by code_simp
  have "Access_loop 64 (NOT 63) 448 True 0x100 = Some True"
    by (simp add: Access_loop.simps)
  then have a: "map_option fst (Access warm_cache 0x100 192 ACCESS_TYPE_LOAD) = Some True"
    by (simp add: Access_def l)
  then obtain r c' where s: "Access warm_cache 0x100 192 ACCESS_TYPE_LOAD = Some (r, c')"
    by (cases "Access warm_cache 0x100 192 ACCESS_TYPE_LOAD") auto
  from Access_Some [OF s] s
  have b: "map_option snd (Access warm_cache 0x100 192 ACCESS_TYPE_LOAD) = Some warm_cache"
    by simp
  have c: "map_sum id fst (AccessSingleLine STORE_ALLOCATE warm_cache 0x100 ACCESS_TYPE_LOAD) = Inr True \<and>
   map_sum id fst (AccessSingleLine STORE_ALLOCATE warm_cache 0x140 ACCESS_TYPE_LOAD) = Inr False \<and>
   map_sum id fst (AccessSingleLine STORE_ALLOCATE warm_cache 0x180 ACCESS_TYPE_LOAD) = Inr True \<and>
   Hits warm_cache ACCESS_TYPE_LOAD = 0 \<and> Misses warm_cache ACCESS_TYPE_LOAD = 2 \<and>
   Hits (projr (AccessSingleLine_seq STORE_ALLOCATE warm_cache
     [(0x100, ACCESS_TYPE_LOAD), (0x140, ACCESS_TYPE_LOAD), (0x180, ACCESS_TYPE_LOAD)])) ACCESS_TYPE_LOAD = 2 \<and>
   Misses (projr (AccessSingleLine_seq STORE_ALLOCATE warm_cache
     [(0x100, ACCESS_TYPE_LOAD), (0x140, ACCESS_TYPE_LOAD), (0x180, ACCESS_TYPE_LOAD)])) ACCESS_TYPE_LOAD = 3"
    by code_simp
  from a b c show ?thesis by (intro conjI) simp_all
qed

text \<open>
  C2: \<open>Access\<close> should return true, and leave the counters and the sets as they were, for
  every address, size and access type. Wherever it returns it does (\<open>Access_returns_true\<close>,
  for every end address up to \<open>2^64 - lineSize\<close>). The walk over the lines steps \<open>addr\<close> to
  the start of the next line with an addition that wraps around, and goes on while
  \<open>addr < highAddr\<close>; it misses the case of a \<open>highAddr\<close> above the start of the last line
  of the address space, which no line start reaches. On the example cache, with lines of 64
  bytes, the loop of \<open>Access\<close> of one byte at 0xFFFFFFFFFFFFFFFE has no last round, and the
  function, documented to return true if all accessed cache lines hit, has no result.
\<close>

theorem Access_has_no_last_round:
  "\<not> isl example_cache \<and> LineSize (projr example_cache) = 64 \<and>
   Access (projr example_cache) 0xFFFFFFFFFFFFFFFE 1 ACCESS_TYPE_LOAD = None"
proof -
  have l: "\<not> isl example_cache \<and> LineSize (projr example_cache) = 64" by code_simp
  have "Access_loop (2 ^ 6) (NOT (mask 6)) 0xFFFFFFFFFFFFFFFF True 0xFFFFFFFFFFFFFFFE = None"
    by (rule Access_loop_diverges) simp_all
  then have "Access_loop 64 (NOT 63) 0xFFFFFFFFFFFFFFFF True 0xFFFFFFFFFFFFFFFE = None"
    by (simp add: mask_eq_decr_exp)
  then have "Access (projr example_cache) 0xFFFFFFFFFFFFFFFE 1 ACCESS_TYPE_LOAD = None"
    using l by (simp add: Access_def)
  with l show ?thesis by simp
qed

text \<open>
  C3: the aggregate accessors should give the sums over the access types. \<open>SumAccess\<close>
  returns 0 whatever the counters hold, so all three aggregates are 0: after one load on the
  example cache the per-type access count of loads is 1 and the aggregate count is 0.
\<close>

theorem aggregate_accessors_return_zero:
  "Hits_all (c :: CACHE) = 0 \<and> Misses_all c = 0 \<and> Accesses_all c = 0 \<and>
   \<not> isl (AccessSingleLine_seq STORE_ALLOCATE (projr example_cache) [(0x40, ACCESS_TYPE_LOAD)]) \<and>
   Accesses (projr (AccessSingleLine_seq STORE_ALLOCATE (projr example_cache) [(0x40, ACCESS_TYPE_LOAD)]))
     ACCESS_TYPE_LOAD = 1 \<and>
   Accesses (projr (AccessSingleLine_seq STORE_ALLOCATE (projr example_cache) [(0x40, ACCESS_TYPE_LOAD)]))
     ACCESS_TYPE_STORE = 0 \<and>
   Accesses_all (projr (AccessSingleLine_seq STORE_ALLOCATE (projr example_cache) [(0x40, ACCESS_TYPE_LOAD)])) = 0"
proof -
  have z: "Hits_all c = 0 \<and> Misses_all c = 0 \<and> Accesses_all c = 0" for c :: CACHE
    by (simp add: Hits_all_def Misses_all_def Accesses_all_def SumAccess_def)
  have e: "\<not> isl (AccessSingleLine_seq STORE_ALLOCATE (projr example_cache) [(0x40, ACCESS_TYPE_LOAD)]) \<and>
   Accesses (projr (AccessSingleLine_seq STORE_ALLOCATE (projr example_cache) [(0x40, ACCESS_TYPE_LOAD)]))
     ACCESS_TYPE_LOAD = 1 \<and>
   Accesses (projr (AccessSingleLine_seq STORE_ALLOCATE (projr example_cache) [(0x40, ACCESS_TYPE_LOAD)]))
     ACCESS_TYPE_STORE = 0"
    by code_simp
  from z [of c] z [of "projr (AccessSingleLine_seq STORE_ALLOCATE (projr example_cache) [(0x40, ACCESS_TYPE_LOAD)])"] e
  show ?thesis by (intro conjI) simp_all
qed

text \<open>
  C4, as stated: \<open>Replace\<close> installs the tag into the slot of maximum recency, ties
  broken by the lowest slot index, so that a fresh set loses slot 0 first. The scan runs
  from the last active slot down and moves on a strictly greater recency only, so it keeps
  the highest index among equals. On a fresh four-way set the tag goes to slot 3; loading
  five distinct tags into a fresh four-way set fills slots 3, 2, 1, 0 and then evicts slot 3.
\<close>

theorem LRU_Replace_lowest_index_counterexample:
  "LRU_ctor 4 4 = Inr (CACHE_SET_LRU (replicate 4 (CACHE_TAG_ctor 0)) 3) \<and>
   Replace (CACHE_SET_LRU (replicate 4 (CACHE_TAG_ctor 0)) 3) (CACHE_TAG_ctor 5) =
     Inr (CACHE_SET_LRU [CACHE_TAG_ctor 0, CACHE_TAG_ctor 0, CACHE_TAG_ctor 0, CACHE_TAG_ctor 5] 3) \<and>
   map occupancy (sets (projr one_set_cache)) = [[0, 0, 0, 0]] \<and>
   map occupancy (sets (projr (AccessSingleLine_seq STORE_ALLOCATE (projr one_set_cache)
       [(0x40, ACCESS_TYPE_LOAD)]))) = [[0, 0, 0, 1]] \<and>
   map occupancy (sets (projr (AccessSingleLine_seq STORE_ALLOCATE (projr one_set_cache)
       [(0x40, ACCESS_TYPE_LOAD), (0x80, ACCESS_TYPE_LOAD), (0xc0, ACCESS_TYPE_LOAD), (0x100, ACCESS_TYPE_LOAD)]))) =
     [[4, 3, 2, 1]] \<and>
   map occupancy (sets (projr (AccessSingleLine_seq STORE_ALLOCATE (projr one_set_cache)
       [(0x40, ACCESS_TYPE_LOAD), (0x80, ACCESS_TYPE_LOAD), (0xc0, ACCESS_TYPE_LOAD), (0x100, ACCESS_TYPE_LOAD),
        (0x140, ACCESS_TYPE_LOAD)]))) =
     [[4, 3, 2, 5]]"
  by code_simp

text \<open>
  C4, amended: for an \<open>LRU\<close> set with at least one active slot, \<open>Replace\<close> installs the
  tag, with recency 0, into an active slot \<open>j\<close>. When some active recency is positive,
  \<open>j\<close> holds the maximum recency and every active slot of higher index holds a strictly
  smaller one: ties are broken by the highest slot index. When no active recency is
  positive, \<open>j\<close> is the last active slot. When all active recencies are equal, \<open>j\<close> is
  the last active slot. Recencies are compared as signed integers. And on a freshly
  constructed set of associativity \<open>k\<close>, below \<open>2^31\<close>, loading \<open>k + 1\<close> tags with distinct
  values other than 0 puts the first \<open>k\<close> of them into slots \<open>k - 1\<close> down to 0, and the
  last of them into slot \<open>k - 1\<close>, evicting the first.
\<close>

theorem LRU_Replace_highest_index:
  "(0 < active li \<and> active li \<le> length ts \<longrightarrow>
     (\<exists>j<active li.
        Replace (CACHE_SET_LRU ts li) tag' = Inr (CACHE_SET_LRU (ts[j := tag'\<lparr>LRU := 0\<rparr>]) li) \<and>
        ((\<exists>i<active li. 0 < sint (LRU (ts ! i))) \<longrightarrow>
           (\<forall>i<active li. sint (LRU (ts ! i)) \<le> sint (LRU (ts ! j))) \<and>
           (\<forall>i. j < i \<and> i < active li \<longrightarrow> sint (LRU (ts ! i)) < sint (LRU (ts ! j)))) \<and>
        (\<not> (\<exists>i<active li. 0 < sint (LRU (ts ! i))) \<longrightarrow> j = active li - 1) \<and>
        ((\<forall>i<active li. LRU (ts ! i) = LRU (ts ! 0)) \<longrightarrow> j = active li - 1))) \<and>
   (a \<noteq> 0 \<and> a < 2147483648 \<and> a \<le> MAX_ASSOCIATIVITY \<and> length tgs = Suc (unat a) \<and>
    distinct (map tag_val tgs) \<and> 0 \<notin> set (map tag_val tgs) \<longrightarrow>
     (\<exists>ts ts'.
        LRU_ctor MAX_ASSOCIATIVITY a =
          Inr (CACHE_SET_LRU (replicate (unat MAX_ASSOCIATIVITY) (CACHE_TAG_ctor 0)) (a - 1)) \<and>
        load_seq (CACHE_SET_LRU (replicate (unat MAX_ASSOCIATIVITY) (CACHE_TAG_ctor 0)) (a - 1)) (butlast tgs) =
          Inr (CACHE_SET_LRU ts (a - 1)) \<and>
        map tag_val ts = rev (map tag_val (butlast tgs)) @ replicate (unat MAX_ASSOCIATIVITY - unat a) 0 \<and>
        load_seq (CACHE_SET_LRU (replicate (unat MAX_ASSOCIATIVITY) (CACHE_TAG_ctor 0)) (a - 1)) tgs =
          Inr (CACHE_SET_LRU ts' (a - 1)) \<and>
        map tag_val ts' = (map tag_val ts)[unat a - 1 := tag_val (last tgs)]))"
proof (intro conjI impI)
  assume "0 < active li \<and> active li \<le> length ts"
  then have "0 < active li" and "active li \<le> length ts" by simp_all
  then show "\<exists>j<active li.
        Replace (CACHE_SET_LRU ts li) tag' = Inr (CACHE_SET_LRU (ts[j := tag'\<lparr>LRU := 0\<rparr>]) li) \<and>
        ((\<exists>i<active li. 0 < sint (LRU (ts ! i))) \<longrightarrow>
           (\<forall>i<active li. sint (LRU (ts ! i)) \<le> sint (LRU (ts ! j))) \<and>
           (\<forall>i. j < i \<and> i < active li \<longrightarrow> sint (LRU (ts ! i)) < sint (LRU (ts ! j)))) \<and>
        (\<not> (\<exists>i<active li. 0 < sint (LRU (ts ! i))) \<longrightarrow> j = active li - 1) \<and>
        ((\<forall>i<active li. LRU (ts ! i) = LRU (ts ! 0)) \<longrightarrow> j = active li - 1)"
    by (rule LRU_Replace_choice)
next
  assume h: "a \<noteq> 0 \<and> a < 2147483648 \<and> a \<le> MAX_ASSOCIATIVITY \<and> length tgs = Suc (unat a) \<and>
    distinct (map tag_val tgs) \<and> 0 \<notin> set (map tag_val tgs)"
  then have "a \<noteq> 0" "a < 2147483648" "a \<le> MAX_ASSOCIATIVITY" "length tgs = Suc (unat a)"
    "distinct (map tag_val tgs)" "0 \<notin> set (map tag_val tgs)"
    by simp_all
  then show "\<exists>ts ts'.
        LRU_ctor MAX_ASSOCIATIVITY a =
          Inr (CACHE_SET_LRU (replicate (unat MAX_ASSOCIATIVITY) (CACHE_TAG_ctor 0)) (a - 1)) \<and>
        load_seq (CACHE_SET_LRU (replicate (unat MAX_ASSOCIATIVITY) (CACHE_TAG_ctor 0)) (a - 1)) (butlast tgs) =
          Inr (CACHE_SET_LRU ts (a - 1)) \<and>
        map tag_val ts = rev (map tag_val (butlast tgs)) @ replicate (unat MAX_ASSOCIATIVITY - unat a) 0 \<and>
        load_seq (CACHE_SET_LRU (replicate (unat MAX_ASSOCIATIVITY) (CACHE_TAG_ctor 0)) (a - 1)) tgs =
          Inr (CACHE_SET_LRU ts' (a - 1)) \<and>
        map tag_val ts' = (map tag_val ts)[unat a - 1 := tag_val (last tgs)]"
    by (rule fresh_set_fill_then_evict)
qed

theorem LRU_Replace_highest_index_witness:
  "0 < active 2 \<and>
   active 2 \<le> length [\<lparr>tag_val = 1, dirty = False, LRU = 2\<rparr>, \<lparr>tag_val = 2, dirty = False, LRU = 5\<rparr>,
                       \<lparr>tag_val = 3, dirty = False, LRU = 5\<rparr>, \<lparr>tag_val = 4, dirty = False, LRU = 9\<rparr>] \<and>
   Replace (CACHE_SET_LRU [\<lparr>tag_val = 1, dirty = False, LRU = 2\<rparr>, \<lparr>tag_val = 2, dirty = False, LRU = 5\<rparr>,
                       \<lparr>tag_val = 3, dirty = False, LRU = 5\<rparr>, \<lparr>tag_val = 4, dirty = False, LRU = 9\<rparr>] 2)
     (CACHE_TAG_ctor 8) =
   Inr (CACHE_SET_LRU [\<lparr>tag_val = 1, dirty = False, LRU = 2\<rparr>, \<lparr>tag_val = 2, dirty = False, LRU = 5\<rparr>,
                       \<lparr>tag_val = 8, dirty = False, LRU = 0\<rparr>, \<lparr>tag_val = 4, dirty = False, LRU = 9\<rparr>] 2) \<and>
   (\<exists>j<active 2.
      Replace (CACHE_SET_LRU [\<lparr>tag_val = 1, dirty = False, LRU = 2\<rparr>, \<lparr>tag_val = 2, dirty = False, LRU = 5\<rparr>,
                       \<lparr>tag_val = 3, dirty = False, LRU = 5\<rparr>, \<lparr>tag_val = 4, dirty = False, LRU = 9\<rparr>] 2)
        (CACHE_TAG_ctor 8) =
      Inr (CACHE_SET_LRU ([\<lparr>tag_val = 1, dirty = False, LRU = 2\<rparr>, \<lparr>tag_val = 2, dirty = False, LRU = 5\<rparr>,
                       \<lparr>tag_val = 3, dirty = False, LRU = 5\<rparr>, \<lparr>tag_val = 4, dirty = False, LRU = 9\<rparr>]
                          [j := (CACHE_TAG_ctor 8)\<lparr>LRU := 0\<rparr>]) 2)) \<and>
   (4 :: UINT32) < 2147483648 \<and> length (map CACHE_TAG_ctor [1, 2, 3, 4, 5]) = Suc (unat (4 :: UINT32)) \<and>
   distinct (map tag_val (map CACHE_TAG_ctor [1, 2, 3, 4, 5])) \<and>
   LRU_ctor 4 4 = Inr (CACHE_SET_LRU (replicate (unat (4 :: UINT32)) (CACHE_TAG_ctor 0)) (4 - 1)) \<and>
   (\<exists>ts ts'.
      load_seq (CACHE_SET_LRU (replicate (unat (4 :: UINT32)) (CACHE_TAG_ctor 0)) (4 - 1))
        (butlast (map CACHE_TAG_ctor [1, 2, 3, 4, 5])) = Inr (CACHE_SET_LRU ts (4 - 1)) \<and>
      map tag_val ts = rev (map tag_val (butlast (map CACHE_TAG_ctor [1, 2, 3, 4, 5]))) @
                       replicate (unat (4 :: UINT32) - unat (4 :: UINT32)) 0 \<and>
      load_seq (CACHE_SET_LRU (replicate (unat (4 :: UINT32)) (CACHE_TAG_ctor 0)) (4 - 1))
        (map CACHE_TAG_ctor [1, 2, 3, 4, 5]) = Inr (CACHE_SET_LRU ts' (4 - 1)) \<and>
      map tag_val ts' = (map tag_val ts)[unat (4 :: UINT32) - 1 := tag_val (last (map CACHE_TAG_ctor [1, 2, 3, 4, 5]))]) \<and>
   map_sum id occupancy (load_seq (CACHE_SET_LRU (replicate 4 (CACHE_TAG_ctor 0)) 3)
        (map CACHE_TAG_ctor [1, 2, 3, 4])) = Inr [4, 3, 2, 1] \<and>
   map_sum id occupancy (load_seq (CACHE_SET_LRU (replicate 4 (CACHE_TAG_ctor 0)) 3)
        (map CACHE_TAG_ctor [1, 2, 3, 4, 5])) = Inr [4, 3, 2, 5]"
proof -
  let ?ts = "[\<lparr>tag_val = 1, dirty = False, LRU = 2\<rparr>, \<lparr>tag_val = 2, dirty = False, LRU = 5\<rparr>,
              \<lparr>tag_val = 3, dirty = False, LRU = 5\<rparr>, \<lparr>tag_val = 4, dirty = False, LRU = 9\<rparr>]"
  let ?tgs = "map CACHE_TAG_ctor [1, 2, 3, 4, 5]"
  have a: "0 < active 2 \<and> active 2 \<le> length ?ts" by (simp add: active_def)
  have r: "Replace (CACHE_SET_LRU ?ts 2) (CACHE_TAG_ctor 8) =
      Inr (CACHE_SET_LRU [\<lparr>tag_val = 1, dirty = False, LRU = 2\<rparr>, \<lparr>tag_val = 2, dirty = False, LRU = 5\<rparr>,
                       \<lparr>tag_val = 8, dirty = False, LRU = 0\<rparr>, \<lparr>tag_val = 4, dirty = False, LRU = 9\<rparr>] 2)"
    by code_simp
  have b: "(4 :: UINT32) \<noteq> 0 \<and> (4 :: UINT32) < 2147483648 \<and> (4 :: UINT32) \<le> 4 \<and>
      length ?tgs = Suc (unat (4 :: UINT32)) \<and> distinct (map tag_val ?tgs) \<and> 0 \<notin> set (map tag_val ?tgs)"
    by (simp add: CACHE_TAG_ctor_def)
  have e: "map_sum id occupancy (load_seq (CACHE_SET_LRU (replicate 4 (CACHE_TAG_ctor 0)) 3)
        (map CACHE_TAG_ctor [1, 2, 3, 4])) = Inr [4, 3, 2, 1] \<and>
   map_sum id occupancy (load_seq (CACHE_SET_LRU (replicate 4 (CACHE_TAG_ctor 0)) 3)
        (map CACHE_TAG_ctor [1, 2, 3, 4, 5])) = Inr [4, 3, 2, 5]"
    by code_simp
  note t = LRU_Replace_highest_index [of 2 ?ts "CACHE_TAG_ctor 8" 4 4 ?tgs]
  from t a have p1: "\<exists>j<active 2. Replace (CACHE_SET_LRU ?ts 2) (CACHE_TAG_ctor 8) =
      Inr (CACHE_SET_LRU (?ts[j := (CACHE_TAG_ctor 8)\<lparr>LRU := 0\<rparr>]) 2)"
    by blast
  from t b have p2: "\<exists>ts ts'.
        LRU_ctor 4 4 = Inr (CACHE_SET_LRU (replicate (unat (4 :: UINT32)) (CACHE_TAG_ctor 0)) (4 - 1)) \<and>
        load_seq (CACHE_SET_LRU (replicate (unat (4 :: UINT32)) (CACHE_TAG_ctor 0)) (4 - 1)) (butlast ?tgs) =
          Inr (CACHE_SET_LRU ts (4 - 1)) \<and>
        map tag_val ts = rev (map tag_val (butlast ?tgs)) @ replicate (unat (4 :: UINT32) - unat (4 :: UINT32)) 0 \<and>
        load_seq (CACHE_SET_LRU (replicate (unat (4 :: UINT32)) (CACHE_TAG_ctor 0)) (4 - 1)) ?tgs =
          Inr (CACHE_SET_LRU ts' (4 - 1)) \<and>
        map tag_val ts' = (map tag_val ts)[unat (4 :: UINT32) - 1 := tag_val (last ?tgs)]"
    by blast
  from a r p1 b p2 e show ?thesis by blast
qed

text \<open>
  C5: \<open>Find\<close> on an \<open>LRU\<close> set whose active slots lie within the array visits every
  active slot. A slot whose stored tag value equals the probe gets recency 0, every other
  active slot has its recency incremented by 1 (a 32-bit increment), on a hit and on a miss
  alike; the slots that are not active, the tag values and the dirty flags stay as they
  are; the result is true exactly when some active slot matched.
\<close>

theorem LRU_Find_full_scan:
  assumes "active li \<le> length ts"
  shows "Find (CACHE_SET_LRU ts li) tag' =
     Inr (\<exists>i<active li. tag_val (ts ! i) = tag_val tag',
          CACHE_SET_LRU
            (map (\<lambda>i. if i < active li
                       then (if tag_val (ts ! i) = tag_val tag'
                             then (ts ! i)\<lparr>LRU := 0\<rparr>
                             else (ts ! i)\<lparr>LRU := LRU (ts ! i) + 1\<rparr>)
                       else ts ! i) [0..<length ts])
            li)"
proof -
  let ?n = "active li"
  have hit: "(\<exists>t \<in> set (take ?n ts). tag_eq t tag') = (\<exists>i<?n. tag_val (ts ! i) = tag_val tag')"
    using assms by (auto simp: nth_image [symmetric] tag_eq_def)
  have "map (Find_slot tag') (take ?n ts) @ drop ?n ts =
      map (\<lambda>i. if i < ?n
                then (if tag_val (ts ! i) = tag_val tag'
                      then (ts ! i)\<lparr>LRU := 0\<rparr>
                      else (ts ! i)\<lparr>LRU := LRU (ts ! i) + 1\<rparr>)
                else ts ! i) [0..<length ts]"
    using assms
    by (intro nth_equalityI) (auto simp: nth_append Find_slot_def tag_eq_def)
  then show ?thesis
    using assms hit by (simp add: Find_def LRU_Find_eq)
qed

theorem LRU_Find_full_scan_witness:
  "active 2 \<le> length [CACHE_TAG_ctor 7, \<lparr>tag_val = 5, dirty = False, LRU = 3\<rparr>,
                       \<lparr>tag_val = 7, dirty = True, LRU = 4\<rparr>, \<lparr>tag_val = 7, dirty = False, LRU = 9\<rparr>] \<and>
   Find (CACHE_SET_LRU [CACHE_TAG_ctor 7, \<lparr>tag_val = 5, dirty = False, LRU = 3\<rparr>,
                       \<lparr>tag_val = 7, dirty = True, LRU = 4\<rparr>, \<lparr>tag_val = 7, dirty = False, LRU = 9\<rparr>] 2)
     (CACHE_TAG_ctor 7) =
   Inr (True, CACHE_SET_LRU [CACHE_TAG_ctor 7, \<lparr>tag_val = 5, dirty = False, LRU = 4\<rparr>,
                       \<lparr>tag_val = 7, dirty = True, LRU = 0\<rparr>, \<lparr>tag_val = 7, dirty = False, LRU = 9\<rparr>] 2)"
proof -
  have a: "active 2 = 3" by (simp add: active_def)
  have u: "[0..<4] = [0, 1, 2, 3]" by (simp add: upt_rec)
  have e: "(\<exists>i<3::nat. P i) = (P 0 \<or> P 1 \<or> P 2)" for P
    by (auto simp: less_Suc_eq numeral_3_eq_3 numeral_2_eq_2)
  show ?thesis
    using LRU_Find_full_scan [of 2 "[CACHE_TAG_ctor 7, \<lparr>tag_val = 5, dirty = False, LRU = 3\<rparr>,
                       \<lparr>tag_val = 7, dirty = True, LRU = 4\<rparr>, \<lparr>tag_val = 7, dirty = False, LRU = 9\<rparr>]" "CACHE_TAG_ctor 7"]
    by (simp add: a u e CACHE_TAG_ctor_def)
qed

text \<open>
  C6: under \<open>STORE_NO_ALLOCATE\<close>, a single-line store that misses leaves the tag values of
  every set as they were, and a load of the same address right after it misses too.
\<close>

theorem store_no_allocate_miss:
  assumes v: "valid_sets c"
    and st: "AccessSingleLine STORE_NO_ALLOCATE c addr ACCESS_TYPE_STORE = Inr (False, c')"
  shows "map occupancy (sets c') = map occupancy (sets c) \<and>
         (\<exists>c''. AccessSingleLine STORE_NO_ALLOCATE c' addr ACCESS_TYPE_LOAD = Inr (False, c''))"
proof -
  let ?i = "unat (snd (SplitAddress c addr 1))"
  let ?v = "tag_val (fst (SplitAddress c addr 1))"
  from AccessSingleLine_Inr [OF st] have ix: "?i < length (sets c)" by blast
  from AccessSingleLine_valid [OF ix v, of STORE_NO_ALLOCATE ACCESS_TYPE_STORE] st
  obtain s' where nr: "\<not> resident (sets c ! ?i) ?v"
    and c': "c' = c\<lparr>sets := (sets c)[?i := s'], access := count_access c ACCESS_TYPE_STORE False\<rparr>"
    and vs: "valid_SET s'" and w: "ways s' = ways (sets c ! ?i)"
    and o: "occupancy s' = occupancy (sets c ! ?i)"
    by auto
  have occ: "map occupancy (sets c') = map occupancy (sets c)"
    using ix o unfolding c' by (simp add: map_update list_update_same_conv)
  have sp: "SplitAddress c' addr 1 = SplitAddress c addr 1" unfolding c' by simp
  have ix': "unat (snd (SplitAddress c' addr 1)) < length (sets c')" using ix unfolding c' by simp
  have v': "valid_sets c'" unfolding c' using v vs by (rule valid_sets_update)
  have s: "sets c' ! ?i = s'" using ix unfolding c' by simp
  have nr': "\<not> resident (sets c' ! unat (snd (SplitAddress c' addr 1))) (tag_val (fst (SplitAddress c' addr 1)))"
    using nr w o unfolding sp s by (simp add: resident_def)
  from AccessSingleLine_valid [OF ix' v', of STORE_NO_ALLOCATE ACCESS_TYPE_LOAD] nr'
  have "\<exists>c''. AccessSingleLine STORE_NO_ALLOCATE c' addr ACCESS_TYPE_LOAD = Inr (False, c'')"
    by auto
  with occ show ?thesis by simp
qed

theorem store_no_allocate_miss_witness:
  "valid_sets (projr example_cache) \<and>
   AccessSingleLine STORE_NO_ALLOCATE (projr example_cache) 0x40 ACCESS_TYPE_STORE =
     Inr (False, snd (projr (AccessSingleLine STORE_NO_ALLOCATE (projr example_cache) 0x40 ACCESS_TYPE_STORE))) \<and>
   map occupancy (sets (snd (projr (AccessSingleLine STORE_NO_ALLOCATE (projr example_cache) 0x40 ACCESS_TYPE_STORE)))) =
     map occupancy (sets (projr example_cache)) \<and>
   (\<exists>c''. AccessSingleLine STORE_NO_ALLOCATE
            (snd (projr (AccessSingleLine STORE_NO_ALLOCATE (projr example_cache) 0x40 ACCESS_TYPE_STORE)))
            0x40 ACCESS_TYPE_LOAD = Inr (False, c''))"
proof -
  have v: "valid_sets (projr example_cache)" using example_cache_valid by (simp add: valid_CACHE_def)
  have st: "AccessSingleLine STORE_NO_ALLOCATE (projr example_cache) 0x40 ACCESS_TYPE_STORE =
     Inr (False, snd (projr (AccessSingleLine STORE_NO_ALLOCATE (projr example_cache) 0x40 ACCESS_TYPE_STORE)))"
    using example_cache_store_miss Inr_projr [of "AccessSingleLine STORE_NO_ALLOCATE (projr example_cache) 0x40 ACCESS_TYPE_STORE"]
    by simp
  from store_no_allocate_miss [OF v st] v st show ?thesis by blast
qed

text \<open>
  C7: a call of \<open>AccessSingleLine\<close> that returns has incremented the counter of its access
  type and of its outcome by 1 and has changed no other counter; after a run of single-line
  accesses, hits plus misses of an access type have grown by the number of accesses of that
  type in the run (counters are 64-bit); and on a cache whose set index always falls on one
  of its sets every call and every run returns.
\<close>

theorem AccessSingleLine_counts_once:
  "(AccessSingleLine alloc c addr accessType = Inr (hit, c') \<longrightarrow>
      access c' = (access c)(accessType := (access c accessType)(hit := access c accessType hit + 1)) \<and>
      l2_access c' = l2_access c) \<and>
   (AccessSingleLine_seq alloc c ops = Inr c'' \<longrightarrow>
      Hits c'' t + Misses c'' t =
        Hits c t + Misses c t + word_of_nat (length (filter (\<lambda>op. snd op = t) ops))) \<and>
   (valid_CACHE c \<longrightarrow>
      (\<exists>hit c'. AccessSingleLine alloc c addr accessType = Inr (hit, c')) \<and>
      (\<exists>c''. AccessSingleLine_seq alloc c ops = Inr c''))"
  using AccessSingleLine_access [of alloc c addr accessType hit c']
    AccessSingleLine_seq_Accesses [of alloc c ops c'' t]
    AccessSingleLine_total [of c alloc addr accessType]
    AccessSingleLine_seq_total [of c alloc ops]
  by (auto simp: Accesses_def)

theorem AccessSingleLine_counts_once_witness:
  "AccessSingleLine STORE_ALLOCATE (projr example_cache) 0x40 ACCESS_TYPE_STORE =
     Inr (fst (projr (AccessSingleLine STORE_ALLOCATE (projr example_cache) 0x40 ACCESS_TYPE_STORE)),
          snd (projr (AccessSingleLine STORE_ALLOCATE (projr example_cache) 0x40 ACCESS_TYPE_STORE))) \<and>
   AccessSingleLine_seq STORE_ALLOCATE (projr example_cache)
     [(0x40, ACCESS_TYPE_STORE), (0x48, ACCESS_TYPE_LOAD), (0x1040, ACCESS_TYPE_LOAD)] =
     Inr (projr (AccessSingleLine_seq STORE_ALLOCATE (projr example_cache)
       [(0x40, ACCESS_TYPE_STORE), (0x48, ACCESS_TYPE_LOAD), (0x1040, ACCESS_TYPE_LOAD)])) \<and>
   valid_CACHE (projr example_cache) \<and>
   access (snd (projr (AccessSingleLine STORE_ALLOCATE (projr example_cache) 0x40 ACCESS_TYPE_STORE))) =
     (access (projr example_cache))(ACCESS_TYPE_STORE := (access (projr example_cache) ACCESS_TYPE_STORE)(False := 1)) \<and>
   Hits (projr (AccessSingleLine_seq STORE_ALLOCATE (projr example_cache)
       [(0x40, ACCESS_TYPE_STORE), (0x48, ACCESS_TYPE_LOAD), (0x1040, ACCESS_TYPE_LOAD)])) ACCESS_TYPE_LOAD +
   Misses (projr (AccessSingleLine_seq STORE_ALLOCATE (projr example_cache)
       [(0x40, ACCESS_TYPE_STORE), (0x48, ACCESS_TYPE_LOAD), (0x1040, ACCESS_TYPE_LOAD)])) ACCESS_TYPE_LOAD = 2"
proof -
  let ?c = "projr example_cache"
  let ?x = "AccessSingleLine STORE_ALLOCATE ?c 0x40 ACCESS_TYPE_STORE"
  let ?ops = "[(0x40, ACCESS_TYPE_STORE), (0x48, ACCESS_TYPE_LOAD), (0x1040, ACCESS_TYPE_LOAD)]"
  let ?y = "AccessSingleLine_seq STORE_ALLOCATE ?c ?ops"
  have a: "?x = Inr (fst (projr ?x), snd (projr ?x))" using example_cache_store by (rule Inr_projr)
  have b: "?y = Inr (projr ?y)" using example_cache_seq by (rule Inr_projr1)
  have v: "valid_CACHE ?c" using example_cache_valid by simp
  have h: "\<not> fst (projr ?x)" by code_simp
  have z: "access ?c ACCESS_TYPE_STORE False = 0" "Hits ?c ACCESS_TYPE_LOAD + Misses ?c ACCESS_TYPE_LOAD = 0"
    by code_simp+
  from AccessSingleLine_counts_once [of STORE_ALLOCATE ?c "0x40" ACCESS_TYPE_STORE "fst (projr ?x)" "snd (projr ?x)"
      ?ops "projr ?y" ACCESS_TYPE_LOAD] a b v h z
  show ?thesis by simp
qed

text \<open>
  C8: at level 1 \<open>SplitAddress\<close> gives the tag \<open>addr >> lineShift\<close> and the set index
  \<open>tag & setIndexMask\<close>, a mask of the shifted address. A cache of 32 KB with lines of 64
  bytes and associativity 4 has a line shift of 6 and 128 sets, and splits 0x1000 into tag
  0x40 and set index 64.
\<close>

theorem SplitAddress_shift_then_mask:
  "SplitAddress c addr 1 =
     (CACHE_TAG_ctor (drop_bit (unat (lineShift c)) addr),
      ucast (drop_bit (unat (lineShift c)) addr) AND setIndexMask c) \<and>
   \<not> isl (CACHE_ctor (LRU_CLASS 4) 128 ''dl1'' 32768 64 4 32768 64 4) \<and>
   lineShift (projr (CACHE_ctor (LRU_CLASS 4) 128 ''dl1'' 32768 64 4 32768 64 4)) = 6 \<and>
   setIndexMask (projr (CACHE_ctor (LRU_CLASS 4) 128 ''dl1'' 32768 64 4 32768 64 4)) = 127 \<and>
   NumSets (projr (CACHE_ctor (LRU_CLASS 4) 128 ''dl1'' 32768 64 4 32768 64 4)) = 128 \<and>
   SplitAddress (projr (CACHE_ctor (LRU_CLASS 4) 128 ''dl1'' 32768 64 4 32768 64 4)) 0x1000 1 =
     (CACHE_TAG_ctor 0x40, 64)"
proof -
  have g: "SplitAddress c addr 1 =
     (CACHE_TAG_ctor (drop_bit (unat (lineShift c)) addr),
      ucast (drop_bit (unat (lineShift c)) addr) AND setIndexMask c)"
    by (simp add: SplitAddress_def Let_def CACHE_TAG_ctor_def ucast_and_mask32)
  have e: "\<not> isl (CACHE_ctor (LRU_CLASS 4) 128 ''dl1'' 32768 64 4 32768 64 4) \<and>
   lineShift (projr (CACHE_ctor (LRU_CLASS 4) 128 ''dl1'' 32768 64 4 32768 64 4)) = 6 \<and>
   setIndexMask (projr (CACHE_ctor (LRU_CLASS 4) 128 ''dl1'' 32768 64 4 32768 64 4)) = 127 \<and>
   NumSets (projr (CACHE_ctor (LRU_CLASS 4) 128 ''dl1'' 32768 64 4 32768 64 4)) = 128 \<and>
   SplitAddress (projr (CACHE_ctor (LRU_CLASS 4) 128 ''dl1'' 32768 64 4 32768 64 4)) 0x1000 1 =
     (CACHE_TAG_ctor 0x40, 64)"
    by code_simp
  from g e show ?thesis by (intro conjI) simp_all
qed

text \<open>
  C9, as stated: every geometry that passes the assertions of the constructor gives
  \<open>totalSize = setCount * associativity * lineSize\<close>. The set count is the quotient of an
  integer division and only the line size and the set count are asserted to be powers of
  two: a cache of 100 bytes with lines of 64 bytes and associativity 1 is constructed, with
  one set, and 1 * 1 * 64 is not 100.
\<close>

theorem constructed_geometry_counterexample:
  "\<not> isl (CACHE_ctor (LRU_CLASS 4) 4 ''dl1'' 100 64 1 100 64 1) \<and>
   CacheSize (projr (CACHE_ctor (LRU_CLASS 4) 4 ''dl1'' 100 64 1 100 64 1)) = 100 \<and>
   NumSets (projr (CACHE_ctor (LRU_CLASS 4) 4 ''dl1'' 100 64 1 100 64 1)) = 1 \<and>
   NumSets (projr (CACHE_ctor (LRU_CLASS 4) 4 ''dl1'' 100 64 1 100 64 1)) *
     Associativity (projr (CACHE_ctor (LRU_CLASS 4) 4 ''dl1'' 100 64 1 100 64 1)) *
     LineSize (projr (CACHE_ctor (LRU_CLASS 4) 4 ''dl1'' 100 64 1 100 64 1)) = 64"
  by code_simp

text \<open>
  C9, amended: when construction succeeds and the total size is a multiple of
  \<open>associativity * lineSize\<close>, the constructed cache has
  \<open>totalSize = setCount * associativity * lineSize\<close>, as natural numbers and so as 32-bit
  values, with \<open>setCount = setIndexMask + 1\<close>; a single-line access leaves the geometry as
  it is, and a multi-line access leaves the whole cache as it is.
\<close>

theorem constructed_geometry:
  assumes "CACHE_ctor cls MAX_SETS name' cacheSize' lineSize' associativity' l2_cacheSize' l2_lineSize' l2_associativity' = Inr c"
    and "unat associativity' * unat lineSize' dvd unat cacheSize'"
  shows "unat (CacheSize c) = unat (NumSets c) * unat (Associativity c) * unat (LineSize c) \<and>
     CacheSize c = NumSets c * Associativity c * LineSize c \<and>
     NumSets c = setIndexMask c + 1 \<and>
     CacheSize c = cacheSize' \<and> LineSize c = lineSize' \<and> Associativity c = associativity' \<and>
     (AccessSingleLine alloc c addr accessType = Inr (hit, c') \<longrightarrow>
        CacheSize c' = CacheSize c \<and> LineSize c' = LineSize c \<and> Associativity c' = Associativity c \<and>
        NumSets c' = NumSets c \<and> lineShift c' = lineShift c) \<and>
     (Access c addr size' accessType = Some (allHit, c'') \<longrightarrow> c'' = c)"
proof -
  note b = CACHE_ctor_base [OF assms(1)]
  have n: "unat (CacheSize c) = unat (NumSets c) * unat (Associativity c) * unat (LineSize c)"
    using geometry_product [OF b(1) assms(2)] b
    by (simp add: CacheSize_def NumSets_def Associativity_def LineSize_def)
  then have "word_of_nat (unat (CacheSize c)) =
      (word_of_nat (unat (NumSets c) * unat (Associativity c) * unat (LineSize c)) :: UINT32)"
    by simp
  then have w: "CacheSize c = NumSets c * Associativity c * LineSize c"
    by simp
  have f: "AccessSingleLine alloc c addr accessType = Inr (hit, c') \<longrightarrow>
        CacheSize c' = CacheSize c \<and> LineSize c' = LineSize c \<and> Associativity c' = Associativity c \<and>
        NumSets c' = NumSets c \<and> lineShift c' = lineShift c"
  proof
    assume "AccessSingleLine alloc c addr accessType = Inr (hit, c')"
    from AccessSingleLine_Inr [OF this] show "CacheSize c' = CacheSize c \<and> LineSize c' = LineSize c \<and>
        Associativity c' = Associativity c \<and> NumSets c' = NumSets c \<and> lineShift c' = lineShift c"
      by (auto simp: CacheSize_def NumSets_def Associativity_def LineSize_def)
  qed
  have g: "Access c addr size' accessType = Some (allHit, c'') \<longrightarrow> c'' = c"
    using Access_Some [of c addr size' accessType allHit c''] by blast
  from n w f g b show ?thesis
    by (simp add: CacheSize_def NumSets_def Associativity_def LineSize_def)
qed


theorem constructed_geometry_witness:
  "CACHE_ctor (LRU_CLASS 4) 4 ''dl1'' 512 64 2 512 64 2 = Inr (projr example_cache) \<and>
   unat (2 :: UINT32) * unat (64 :: UINT32) dvd unat (512 :: UINT32) \<and>
   AccessSingleLine STORE_ALLOCATE (projr example_cache) 0x40 ACCESS_TYPE_STORE =
     Inr (fst (projr (AccessSingleLine STORE_ALLOCATE (projr example_cache) 0x40 ACCESS_TYPE_STORE)),
          snd (projr (AccessSingleLine STORE_ALLOCATE (projr example_cache) 0x40 ACCESS_TYPE_STORE))) \<and>
   Access (projr example_cache) 0x40 8 ACCESS_TYPE_STORE = Some (True, projr example_cache) \<and>
   unat (CacheSize (projr example_cache)) = 512 \<and>
   unat (NumSets (projr example_cache)) * unat (Associativity (projr example_cache)) *
     unat (LineSize (projr example_cache)) = 512 \<and>
   CacheSize (snd (projr (AccessSingleLine STORE_ALLOCATE (projr example_cache) 0x40 ACCESS_TYPE_STORE))) = 512 \<and>
   NumSets (snd (projr (AccessSingleLine STORE_ALLOCATE (projr example_cache) 0x40 ACCESS_TYPE_STORE))) = 4"
proof -
  let ?c = "projr example_cache"
  let ?x = "AccessSingleLine STORE_ALLOCATE ?c 0x40 ACCESS_TYPE_STORE"
  have i: "\<not> isl example_cache" using example_cache_valid by simp
  have c: "CACHE_ctor (LRU_CLASS 4) 4 ''dl1'' 512 64 2 512 64 2 = Inr ?c"
    using Inr_projr1 [OF i] by (simp add: example_cache_def)
  have d: "unat (2 :: UINT32) * unat (64 :: UINT32) dvd unat (512 :: UINT32)" by simp
  have a: "?x = Inr (fst (projr ?x), snd (projr ?x))" using example_cache_store by (rule Inr_projr)
  have l: "LineSize ?c = 64" by code_simp
  have "Access_loop 64 (NOT 63) 72 True 0x40 = Some True"
    by (simp add: Access_loop.simps)
  then have m: "Access ?c 0x40 8 ACCESS_TYPE_STORE = Some (True, ?c)"
    by (simp add: Access_def l)
  have v: "CacheSize ?c = 512" "NumSets ?c = 4" by code_simp+
  from constructed_geometry [OF c d, where alloc = STORE_ALLOCATE and addr = "0x40"
      and accessType = ACCESS_TYPE_STORE and hit = "fst (projr ?x)" and c' = "snd (projr ?x)"
      and size' = 8 and allHit = True and c'' = ?c] c d a m v
  show ?thesis by simp
qed

text \<open>
  C10: on a freshly constructed cache a single-line access to an address whose tag value is
  0 hits, since every slot was constructed with tag value 0; and it still hits after any run
  of single-line accesses that go to other sets or have tag value 0 themselves, none of
  which replaces a slot of set 0. The arrays are taken to be non-empty and an \<open>LRU\<close> set to
  have at most \<open>2^31\<close> slots.
\<close>

theorem cold_cache_hits_tag_zero:
  assumes c: "CACHE_ctor cls MAX_SETS name' cacheSize' lineSize' associativity' l2_cacheSize' l2_lineSize' l2_associativity' = Inr c"
    and ab: "array_bounds cls MAX_SETS"
    and z: "tag_val (fst (SplitAddress c addr 1)) = 0"
    and o: "\<forall>op \<in> set ops. tag_val (fst (SplitAddress c (fst op) 1)) = 0 \<or> snd (SplitAddress c (fst op) 1) \<noteq> 0"
    and s: "AccessSingleLine_seq alloc c ops = Inr c'"
  shows "(\<exists>c''. AccessSingleLine alloc c addr accessType = Inr (True, c'')) \<and>
         (\<exists>c''. AccessSingleLine alloc c' addr accessType = Inr (True, c''))"
proof -
  from CACHE_ctor_cold [OF c ab] have len: "length (sets c) = unat MAX_SETS" and cold: "list_all cold (sets c)"
    by simp_all
  have p: "0 < length (sets c)" using len ab by (simp add: array_bounds_def unat_gt_0)
  have h: "holds_zero c"
    using p cold by (simp add: holds_zero_def valid_sets_def list_all_length cold_def)
  from holds_zero_seq [OF h o s] have h': "holds_zero c'"
    and g: "\<forall>addr'. SplitAddress c' addr' 1 = SplitAddress c addr' 1"
    by simp_all
  have z': "tag_val (fst (SplitAddress c' addr 1)) = 0" using z g by simp
  from holds_zero_hit [OF h z, of alloc accessType] holds_zero_hit [OF h' z', of alloc accessType]
  show ?thesis by simp
qed


theorem cold_cache_hits_tag_zero_witness:
  "CACHE_ctor (LRU_CLASS 4) 4 ''dl1'' 512 64 2 512 64 2 = Inr (projr example_cache) \<and>
   array_bounds (LRU_CLASS 4) 4 \<and>
   tag_val (fst (SplitAddress (projr example_cache) 0x8 1)) = 0 \<and>
   snd (SplitAddress (projr example_cache) 0x40 1) = 1 \<and>
   tag_val (fst (SplitAddress (projr example_cache) 0x10 1)) = 0 \<and>
   snd (SplitAddress (projr example_cache) 0x1c0 1) = 3 \<and>
   AccessSingleLine_seq STORE_ALLOCATE (projr example_cache)
     [(0x40, ACCESS_TYPE_LOAD), (0x10, ACCESS_TYPE_STORE), (0x1c0, ACCESS_TYPE_LOAD)] =
     Inr (projr (AccessSingleLine_seq STORE_ALLOCATE (projr example_cache)
       [(0x40, ACCESS_TYPE_LOAD), (0x10, ACCESS_TYPE_STORE), (0x1c0, ACCESS_TYPE_LOAD)])) \<and>
   (\<exists>c''. AccessSingleLine STORE_ALLOCATE (projr example_cache) 0x8 ACCESS_TYPE_LOAD = Inr (True, c'')) \<and>
   (\<exists>c''. AccessSingleLine STORE_ALLOCATE
      (projr (AccessSingleLine_seq STORE_ALLOCATE (projr example_cache)
         [(0x40, ACCESS_TYPE_LOAD), (0x10, ACCESS_TYPE_STORE), (0x1c0, ACCESS_TYPE_LOAD)]))
      0x8 ACCESS_TYPE_LOAD = Inr (True, c''))"
proof -
  let ?c = "projr example_cache"
  let ?ops = "[(0x40, ACCESS_TYPE_LOAD), (0x10, ACCESS_TYPE_STORE), (0x1c0, ACCESS_TYPE_LOAD)]"
  let ?y = "AccessSingleLine_seq STORE_ALLOCATE ?c ?ops"
  have i: "\<not> isl example_cache" using example_cache_valid by simp
  have c: "CACHE_ctor (LRU_CLASS 4) 4 ''dl1'' 512 64 2 512 64 2 = Inr ?c"
    using Inr_projr1 [OF i] by (simp add: example_cache_def)
  have ab: "array_bounds (LRU_CLASS 4) 4" by (simp add: array_bounds_def)
  have z: "tag_val (fst (SplitAddress ?c 0x8 1)) = 0" by code_simp
  have o: "\<forall>op \<in> set ?ops. tag_val (fst (SplitAddress ?c (fst op) 1)) = 0 \<or> snd (SplitAddress ?c (fst op) 1) \<noteq> 0"
    by code_simp
  have "\<not> isl ?y" by code_simp
  then have s: "?y = Inr (projr ?y)" by (rule Inr_projr1)
  have e: "snd (SplitAddress ?c 0x40 1) = 1" "tag_val (fst (SplitAddress ?c 0x10 1)) = 0"
    "snd (SplitAddress ?c 0x1c0 1) = 3"
    by code_simp+
  from cold_cache_hits_tag_zero [OF c ab z o s, of ACCESS_TYPE_LOAD] c ab z e s
  show ?thesis by blast
qed

end
